theory Spec2Isabelle
  imports Main
begin

section \<open>Four in a Row: board, moves and search\<close>

subsection \<open>Data model\<close>

text \<open>
  The board is a Python list of rows, each row a list of one-character strings. The
  program only ever writes three of them: \<^verbatim>\<open>'.'\<close> (an empty cell), \<^verbatim>\<open>'X'\<close> (the human,
  or player 1) and \<^verbatim>\<open>'O'\<close> (the computer, or player 2).
\<close>

datatype cell = Empty | MarkA | MarkB
  \<comment> \<open>\<^verbatim>\<open>'.'\<close>, \<^verbatim>\<open>'X'\<close>, \<^verbatim>\<open>'O'\<close>\<close>

type_synonym state = "cell list list"

text \<open>The exceptions of Python that the modelled code can raise.\<close>

datatype py_error = IndexError | TypeError

text \<open>
  Well-formed boards. A board built by the constructors is a rectangle with at least
  one row (\<^verbatim>\<open>[['.' for _ in range(columns)] for _ in range(rows)]\<close>), and every move
  settles on the lowest empty cell of its column, so no empty cell lies below an
  occupied one.
\<close>

definition rect :: "state \<Rightarrow> bool" where
  "rect s \<longleftrightarrow> s \<noteq> [] \<and> list_all (\<lambda>row. length row = length (s ! 0)) s"

definition gravity :: "state \<Rightarrow> bool" where
  "gravity s \<longleftrightarrow>
     list_all (\<lambda>r. list_all (\<lambda>c. s ! r ! c = Empty \<or> s ! Suc r ! c \<noteq> Empty)
                 [0..<length (s ! 0)])
       [0..<length s - 1]"

definition wf_board :: "state \<Rightarrow> bool" where
  "wf_board s \<longleftrightarrow> rect s \<and> gravity s"

subsection \<open>MINIMAX_ALGORITHM: legal moves and applying a move\<close>

text \<open>
  \<^verbatim>\<open>get_possible_moves\<close>: the columns of row 0 that hold \<^verbatim>\<open>'.'\<close>, in ascending order.
\<close>

definition get_possible_moves :: "state \<Rightarrow> nat list" where
  "get_possible_moves state = filter (\<lambda>col. state ! 0 ! col = Empty) [0..<length (state ! 0)]"

text \<open>
  \<^verbatim>\<open>make_move\<close> copies the board and walks the rows from the last one up to row 0; the
  first \<^verbatim>\<open>'.'\<close> met in the column receives the mark and the loop breaks. When the loop
  ends without a \<^verbatim>\<open>'.'\<close> the copy is returned as it is. Reading \<^verbatim>\<open>new_state[r][col]\<close> with
  \<^verbatim>\<open>col\<close> beyond the row raises IndexError. Columns are natural numbers here: every
  caller passes an index taken from a \<^verbatim>\<open>range\<close>.
\<close>

fun make_move_loop :: "state \<Rightarrow> nat list \<Rightarrow> nat \<Rightarrow> cell \<Rightarrow> py_error + state" where
  "make_move_loop new_state [] col player = Inr new_state"
| "make_move_loop new_state (r # rs) col player =
     (if length (new_state ! r) \<le> col then Inl IndexError
      else if new_state ! r ! col = Empty
           then Inr (new_state[r := (new_state ! r)[col := player]])
           else make_move_loop new_state rs col player)"

definition make_move :: "state \<Rightarrow> nat \<Rightarrow> cell \<Rightarrow> py_error + state" where
  "make_move state move player = make_move_loop state (rev [0..<length state]) move player"

subsection \<open>MINIMAX_ALGORITHM: win test, terminal test and static evaluation\<close>

text \<open>
  \<^verbatim>\<open>is_winner\<close> returns True at the first window of four cells that all hold the player's
  mark: the rows (through the slice \<^verbatim>\<open>row[col:col + 4]\<close>), then the columns, then the
  diagonals running down to the right, then those running down to the left.
\<close>

definition is_winner :: "state \<Rightarrow> cell \<Rightarrow> bool" where
  "is_winner state player \<longleftrightarrow>
     list_ex (\<lambda>row. list_ex (\<lambda>col. list_all (\<lambda>cell. cell = player) (take 4 (drop col row)))
                [0..<length row - 3]) state
   \<or> list_ex (\<lambda>col. list_ex (\<lambda>row. list_all (\<lambda>i. state ! (row + i) ! col = player) [0..<4])
                [0..<length state - 3]) [0..<length (state ! 0)]
   \<or> list_ex (\<lambda>row. list_ex (\<lambda>col. list_all (\<lambda>i. state ! (row + i) ! (col + i) = player) [0..<4])
                [0..<length (state ! 0) - 3]) [0..<length state - 3]
   \<or> list_ex (\<lambda>row. list_ex (\<lambda>col. list_all (\<lambda>i. state ! (row + i) ! (col - i) = player) [0..<4])
                [3..<length (state ! 0)]) [0..<length state - 3]"

definition is_terminal :: "state \<Rightarrow> bool" where
  "is_terminal state \<longleftrightarrow>
     (if is_winner state MarkB \<or> is_winner state MarkA then True
      else list_all (\<lambda>row. list_all (\<lambda>cell. cell \<noteq> Empty) row) state)"

definition evaluate_window :: "cell list \<Rightarrow> int" where
  "evaluate_window window =
     (if count_list window MarkB = 4 then 100
      else if count_list window MarkA = 4 then - 100
      else if count_list window MarkB = 3 \<and> count_list window Empty = 1 then 5
      else if count_list window MarkB = 2 \<and> count_list window Empty = 2 then 2
      else if count_list window MarkA = 3 \<and> count_list window Empty = 1 then - 5
      else if count_list window MarkA = 2 \<and> count_list window Empty = 2 then - 2
      else 0)"

text \<open>
  \<^verbatim>\<open>evaluate\<close> runs four pairs of nested loops, each adding the score of one window to the
  running \<^verbatim>\<open>score\<close>.
\<close>

definition evaluate :: "state \<Rightarrow> int" where
  "evaluate state =
     (let score = 0;
          score = fold (\<lambda>row score.
                    fold (\<lambda>col score. score + evaluate_window (take 4 (drop col row)))
                      [0..<length row - 3] score) state score;
          score = fold (\<lambda>col score.
                    fold (\<lambda>row score.
                        score + evaluate_window (map (\<lambda>i. state ! (row + i) ! col) [0..<4]))
                      [0..<length state - 3] score) [0..<length (state ! 0)] score;
          score = fold (\<lambda>row score.
                    fold (\<lambda>col score.
                        score + evaluate_window (map (\<lambda>i. state ! (row + i) ! (col + i)) [0..<4]))
                      [0..<length (state ! 0) - 3] score) [0..<length state - 3] score;
          score = fold (\<lambda>row score.
                    fold (\<lambda>col score.
                        score + evaluate_window (map (\<lambda>i. state ! (row + i) ! (col - i)) [0..<4]))
                      [3..<length (state ! 0)] score) [0..<length state - 3] score
      in score)"

subsection \<open>MINIMAX_ALGORITHM: the search\<close>

text \<open>
  The values of the search are the integers of \<^verbatim>\<open>evaluate\<close> together with
  \<^verbatim>\<open>float('-inf')\<close> and \<^verbatim>\<open>float('inf')\<close>, the starting values of the two loops.
\<close>

datatype score = NegInf | Fin int | PosInf

instantiation score :: linorder
begin

fun less_eq_score :: "score \<Rightarrow> score \<Rightarrow> bool" where
  "less_eq_score NegInf _ = True"
| "less_eq_score (Fin a) NegInf = False"
| "less_eq_score (Fin a) (Fin b) = (a \<le> b)"
| "less_eq_score (Fin a) PosInf = True"
| "less_eq_score PosInf PosInf = True"
| "less_eq_score PosInf _ = False"

definition less_score :: "score \<Rightarrow> score \<Rightarrow> bool" where
  "less_score a b \<longleftrightarrow> a \<le> b \<and> \<not> b \<le> a"

instance
proof
  fix x y z :: score
  show "(x < y) = (x \<le> y \<and> \<not> y \<le> x)" by (simp add: less_score_def)
  show "x \<le> x" by (cases x) simp_all
  show "x \<le> y \<Longrightarrow> y \<le> z \<Longrightarrow> x \<le> z" by (cases x; cases y; cases z) simp_all
  show "x \<le> y \<Longrightarrow> y \<le> x \<Longrightarrow> x = y" by (cases x; cases y) simp_all
  show "x \<le> y \<or> y \<le> x" by (cases x; cases y) auto
qed

end

text \<open>
  \<^verbatim>\<open>minimax\<close> with its two loops over \<^verbatim>\<open>get_possible_moves(state)\<close>. The depth is a natural
  number (the program uses 0, 2 and 3); the recursive call is on \<^verbatim>\<open>depth - 1\<close>. An error
  raised by \<^verbatim>\<open>make_move\<close> or by a recursive call leaves the loop at once.
\<close>

fun minimax :: "state \<Rightarrow> nat \<Rightarrow> bool \<Rightarrow> py_error + score"
  and minimax_max_loop :: "state \<Rightarrow> nat \<Rightarrow> nat list \<Rightarrow> score \<Rightarrow> py_error + score"
  and minimax_min_loop :: "state \<Rightarrow> nat \<Rightarrow> nat list \<Rightarrow> score \<Rightarrow> py_error + score"
where
  "minimax state 0 maximizing_player = Inr (Fin (evaluate state))"
| "minimax state (Suc d) maximizing_player =
     (if is_terminal state then Inr (Fin (evaluate state))
      else if maximizing_player
           then minimax_max_loop state d (get_possible_moves state) NegInf
           else minimax_min_loop state d (get_possible_moves state) PosInf)"
| "minimax_max_loop state d [] max_eval = Inr max_eval"
| "minimax_max_loop state d (move # moves) max_eval =
     (case make_move state move MarkB of
        Inl e \<Rightarrow> Inl e
      | Inr child_state \<Rightarrow>
          (case minimax child_state d False of
             Inl e \<Rightarrow> Inl e
           | Inr eval \<Rightarrow> minimax_max_loop state d moves (max max_eval eval)))"
| "minimax_min_loop state d [] min_eval = Inr min_eval"
| "minimax_min_loop state d (move # moves) min_eval =
     (case make_move state move MarkA of
        Inl e \<Rightarrow> Inl e
      | Inr child_state \<Rightarrow>
          (case minimax child_state d True of
             Inl e \<Rightarrow> Inl e
           | Inr eval \<Rightarrow> minimax_min_loop state d moves (min min_eval eval)))"

text \<open>
  \<^verbatim>\<open>find_best_move\<close>: the loop keeps \<^verbatim>\<open>best_score\<close> and \<^verbatim>\<open>best_move\<close>, replaced only by a
  strictly greater score; \<^verbatim>\<open>best_move\<close> starts as \<^verbatim>\<open>None\<close>. The first argument is
  \<^verbatim>\<open>self.depth\<close>.
\<close>

fun find_best_move_loop ::
  "nat \<Rightarrow> state \<Rightarrow> nat list \<Rightarrow> score \<Rightarrow> nat option \<Rightarrow> py_error + nat option" where
  "find_best_move_loop depth state [] best_score best_move = Inr best_move"
| "find_best_move_loop depth state (move # moves) best_score best_move =
     (case make_move state move MarkB of
        Inl e \<Rightarrow> Inl e
      | Inr child_state \<Rightarrow>
          (case minimax child_state depth False of
             Inl e \<Rightarrow> Inl e
           | Inr score \<Rightarrow>
               if score > best_score
               then find_best_move_loop depth state moves score (Some move)
               else find_best_move_loop depth state moves best_score best_move))"

definition find_best_move :: "nat \<Rightarrow> state \<Rightarrow> py_error + nat option" where
  "find_best_move depth state =
     find_best_move_loop depth state (get_possible_moves state) NegInf None"

subsection \<open>GAME_AI and GAME_1V1: the winner with its four cells\<close>

text \<open>
  A \<^verbatim>\<open>for\<close> loop whose body may return: the first iteration that returns decides.
\<close>

fun first_some :: "('a \<Rightarrow> 'b option) \<Rightarrow> 'a list \<Rightarrow> 'b option" where
  "first_some f [] = None"
| "first_some f (x # xs) = (case f x of Some y \<Rightarrow> Some y | None \<Rightarrow> first_some f xs)"

text \<open>
  \<^verbatim>\<open>is_a_winner\<close> has the same text in GAME_AI and in GAME_1V1. It reads \<^verbatim>\<open>self.state\<close> and
  returns \<^verbatim>\<open>None\<close> or the list \<^verbatim>\<open>[mark, (r0, c0), (r1, c1), (r2, c2), (r3, c3)]\<close>, here the
  pair of the mark and the list of the four coordinates. The chained comparison
  \<^verbatim>\<open>a == b == c == d\<close> is \<^verbatim>\<open>a == b and b == c and c == d\<close>.
\<close>

definition is_a_winner :: "state \<Rightarrow> (cell \<times> (nat \<times> nat) list) option" where
  "is_a_winner matrix =
     (let rows = length matrix; cols = length (matrix ! 0) in
      case first_some (\<lambda>row. first_some (\<lambda>col.
             if matrix ! row ! col = matrix ! row ! (col + 1) \<and>
                matrix ! row ! (col + 1) = matrix ! row ! (col + 2) \<and>
                matrix ! row ! (col + 2) = matrix ! row ! (col + 3) \<and>
                matrix ! row ! col \<noteq> Empty
             then Some (matrix ! row ! col,
                        [(row, col), (row, col + 1), (row, col + 2), (row, col + 3)])
             else None) [0..<cols - 3]) [0..<rows] of
        Some w \<Rightarrow> Some w
      | None \<Rightarrow>
      (case first_some (\<lambda>row. first_some (\<lambda>col.
             if matrix ! row ! col = matrix ! (row + 1) ! col \<and>
                matrix ! (row + 1) ! col = matrix ! (row + 2) ! col \<and>
                matrix ! (row + 2) ! col = matrix ! (row + 3) ! col \<and>
                matrix ! row ! col \<noteq> Empty
             then Some (matrix ! row ! col,
                        [(row, col), (row + 1, col), (row + 2, col), (row + 3, col)])
             else None) [0..<cols]) [0..<rows - 3] of
        Some w \<Rightarrow> Some w
      | None \<Rightarrow>
      (case first_some (\<lambda>row. first_some (\<lambda>col.
             if matrix ! row ! col = matrix ! (row + 1) ! (col + 1) \<and>
                matrix ! (row + 1) ! (col + 1) = matrix ! (row + 2) ! (col + 2) \<and>
                matrix ! (row + 2) ! (col + 2) = matrix ! (row + 3) ! (col + 3) \<and>
                matrix ! row ! col \<noteq> Empty
             then Some (matrix ! row ! col,
                        [(row, col), (row + 1, col + 1), (row + 2, col + 2), (row + 3, col + 3)])
             else None) [0..<cols - 3]) [0..<rows - 3] of
        Some w \<Rightarrow> Some w
      | None \<Rightarrow>
        first_some (\<lambda>row. first_some (\<lambda>col.
             if matrix ! row ! col = matrix ! (row - 1) ! (col + 1) \<and>
                matrix ! (row - 1) ! (col + 1) = matrix ! (row - 2) ! (col + 2) \<and>
                matrix ! (row - 2) ! (col + 2) = matrix ! (row - 3) ! (col + 3) \<and>
                matrix ! row ! col \<noteq> Empty
             then Some (matrix ! row ! col,
                        [(row, col), (row - 1, col + 1), (row - 2, col + 2), (row - 3, col + 3)])
             else None) [0..<cols - 3]) [3..<rows])))"

subsection \<open>GAME_AI: the computer's turn\<close>

text \<open>
  The fields of GAME_AI that the turn logic reads or writes. \<^verbatim>\<open>start_move\<close> is an
  attribute that does not exist until the first assignment to it. Window, fonts and the
  movable piece are presentation and are left out.
\<close>

record game_ai =
  rows_number :: nat
  columns_number :: nat
  first_player :: string
  current_player :: string
  game_mode :: string
  last_move :: string
  start_move :: "string option"
  state :: state

definition game_ai_init :: "nat \<Rightarrow> nat \<Rightarrow> string \<Rightarrow> string \<Rightarrow> game_ai" where
  "game_ai_init row_size column_size first_player' game_mode' =
     \<lparr>rows_number = row_size, columns_number = column_size, first_player = first_player',
      current_player = first_player', game_mode = game_mode', last_move = ''Random'',
      start_move = None,
      state = replicate row_size (replicate column_size Empty)\<rparr>"

text \<open>
  \<^verbatim>\<open>get_available_position\<close>: the last row index \<^verbatim>\<open>i\<close> in \<^verbatim>\<open>range(rows_number)\<close> whose cell in
  the column is \<^verbatim>\<open>'.'\<close>, and 0 when there is none. Every \<^verbatim>\<open>state[i][column]\<close> is read, so a
  row or column index out of range raises IndexError.
\<close>

definition get_available_position :: "game_ai \<Rightarrow> nat \<Rightarrow> py_error + nat" where
  "get_available_position g column =
     (if list_ex (\<lambda>i. length (state g) \<le> i \<or> length (state g ! i) \<le> column)
           [0..<rows_number g]
      then Inl IndexError
      else Inr (fold (\<lambda>i line. if state g ! i ! column = Empty then i else line)
                  [0..<rows_number g] 0))"

definition set_cell :: "game_ai \<Rightarrow> nat \<Rightarrow> nat \<Rightarrow> cell \<Rightarrow> py_error + game_ai" where
  \<comment> \<open>\<^verbatim>\<open>self.state[line][column] = mark\<close>\<close>
  "set_cell g line column mark =
     (if length (state g) \<le> line \<or> length (state g ! line) \<le> column then Inl IndexError
      else Inr (g\<lparr>state := (state g)[line := (state g ! line)[column := mark]]\<rparr>))"

text \<open>
  \<^verbatim>\<open>execute_ai_move\<close> receives what \<^verbatim>\<open>find_best_move\<close> returned, which may be \<^verbatim>\<open>None\<close>;
  indexing a row with \<^verbatim>\<open>None\<close> raises TypeError (and indexing an empty board raises
  IndexError before that).
\<close>

definition execute_ai_move :: "game_ai \<Rightarrow> nat option \<Rightarrow> py_error + game_ai" where
  "execute_ai_move g ai_move =
     (case ai_move of
        None \<Rightarrow> Inl (if state g = [] then IndexError else TypeError)
      | Some column \<Rightarrow>
          (case get_available_position g column of
             Inl e \<Rightarrow> Inl e
           | Inr line \<Rightarrow> set_cell g line column MarkB))"

text \<open>
  The human's click on a column: \<^verbatim>\<open>is_valid_move\<close> walks down the column and returns True at
  the first \<^verbatim>\<open>'.'\<close> (reading outside the board raises IndexError), \<^verbatim>\<open>execute_move\<close> writes
  \<^verbatim>\<open>'X'\<close>, and the turn passes to the computer.
\<close>

fun is_valid_move_loop :: "state \<Rightarrow> nat list \<Rightarrow> nat \<Rightarrow> py_error + bool" where
  "is_valid_move_loop s [] column = Inr False"
| "is_valid_move_loop s (i # rest) column =
     (if length s \<le> i \<or> length (s ! i) \<le> column then Inl IndexError
      else if s ! i ! column = Empty then Inr True
      else is_valid_move_loop s rest column)"

definition is_valid_move :: "game_ai \<Rightarrow> nat \<Rightarrow> py_error + bool" where
  "is_valid_move g column = is_valid_move_loop (state g) [0..<rows_number g] column"

definition execute_move :: "game_ai \<Rightarrow> nat \<Rightarrow> py_error + game_ai" where
  "execute_move g column =
     (case get_available_position g column of
        Inl e \<Rightarrow> Inl e
      | Inr line \<Rightarrow> set_cell g line column MarkA)"

definition human_click :: "game_ai \<Rightarrow> nat \<Rightarrow> py_error + game_ai" where
  "human_click g column =
     (case is_valid_move g column of
        Inl e \<Rightarrow> Inl e
      | Inr valid \<Rightarrow>
          if valid
          then (case execute_move g column of
                  Inl e \<Rightarrow> Inl e
                | Inr g' \<Rightarrow> Inr (g'\<lparr>current_player := ''computer''\<rparr>))
          else Inr g)"

text \<open>
  The random branch draws \<^verbatim>\<open>random.randint(0, columns_number - 1)\<close> until the top cell of
  the drawn column is \<^verbatim>\<open>'.'\<close>. The draws are an input here, in the order in which
  \<^verbatim>\<open>randint\<close> returns them; \<^verbatim>\<open>None\<close> says that the loop has not left after all of them.
\<close>

fun random_move :: "state \<Rightarrow> nat list \<Rightarrow> (py_error + nat) option" where
  "random_move s [] = None"
| "random_move s (ai_move # draws) =
     (if s = [] \<or> length (s ! 0) \<le> ai_move then Some (Inl IndexError)
      else if s ! 0 ! ai_move \<noteq> Empty then random_move s draws
      else Some (Inr ai_move))"

definition search_turn :: "game_ai \<Rightarrow> nat \<Rightarrow> string option \<Rightarrow> py_error + game_ai" where
  \<comment> \<open>\<^verbatim>\<open>find_best_move\<close>, \<^verbatim>\<open>execute_ai_move\<close>, the turn passes to the human; Easy mode also
      assigns \<^verbatim>\<open>start_move\<close>\<close>
  "search_turn g depth flag =
     (case find_best_move depth (state g) of
        Inl e \<Rightarrow> Inl e
      | Inr ai_move \<Rightarrow>
          (case execute_ai_move g ai_move of
             Inl e \<Rightarrow> Inl e
           | Inr g' \<Rightarrow>
               Inr (g'\<lparr>current_player := ''human'',
                       start_move := (case flag of None \<Rightarrow> start_move g' | Some f \<Rightarrow> Some f)\<rparr>)))"

text \<open>
  One pass through the \<^verbatim>\<open>elif self.current_player == "computer"\<close> branch of \<^verbatim>\<open>play\<close>.
  \<^verbatim>\<open>minimax_easy\<close>, \<^verbatim>\<open>minimax_medium\<close> and \<^verbatim>\<open>minimax_hard\<close> have depth 0, 2 and 3.
\<close>

definition computer_turn :: "game_ai \<Rightarrow> nat list \<Rightarrow> (py_error + game_ai) option" where
  "computer_turn g draws =
     (if game_mode g = ''Easy'' then
        (if last_move g = ''Random'' then Some (search_turn g 0 (Some ''Smart''))
         else
           (case random_move (state g) draws of
              None \<Rightarrow> None
            | Some (Inl e) \<Rightarrow> Some (Inl e)
            | Some (Inr ai_move) \<Rightarrow>
                (case execute_ai_move g (Some ai_move) of
                   Inl e \<Rightarrow> Some (Inl e)
                 | Inr g' \<Rightarrow>
                     Some (Inr (g'\<lparr>current_player := ''human'',
                                   start_move := Some ''Random''\<rparr>)))))
      else if game_mode g = ''Medium'' then Some (search_turn g 2 None)
      else if game_mode g = ''Hard'' then Some (search_turn g 3 None)
      else Some (Inr g))"

subsection \<open>Validation of the command line\<close>

text \<open>
  \<^verbatim>\<open>validate\<close> receives four strings. \<^verbatim>\<open>int(row_size)\<close> and \<^verbatim>\<open>int(column_size)\<close> are taken as
  already evaluated: \<^verbatim>\<open>None\<close> when \<^verbatim>\<open>int\<close> raises ValueError, which the \<^verbatim>\<open>except\<close> clause
  catches and prints. The outcome is either the printed message or the call of
  \<^verbatim>\<open>FourInROW_game\<close> in the \<^verbatim>\<open>else\<close> clause, which is the only place where a game is
  created.
\<close>

datatype outcome =
    Printed string
  | PrintedValueError
  | Started string int int string

definition validate :: "string \<Rightarrow> int option \<Rightarrow> int option \<Rightarrow> string \<Rightarrow> outcome" where
  "validate opponent_type row_size column_size first_player' =
     (if opponent_type \<noteq> ''human'' \<and> opponent_type \<noteq> ''computer''
      then Printed ''ERROR: Opponent type must be 'human' or 'computer'!''
      else case row_size of
        None \<Rightarrow> PrintedValueError
      | Some rows \<Rightarrow>
          if rows < 4 \<or> rows > 8
          then Printed ''ERROR: The number of rows must be between 4 and 8!''
          else case column_size of
            None \<Rightarrow> PrintedValueError
          | Some cols \<Rightarrow>
              if cols < 4 \<or> cols > 16
              then Printed ''ERROR: The number of columns must be between 4 and 16!''
              else if opponent_type = ''human'' \<and>
                      first_player' \<noteq> ''player1'' \<and> first_player' \<noteq> ''player2''
              then Printed
                ''ERROR: In 1v1 games, the first move should be made by 'player1' or 'player2'!''
              else if opponent_type \<noteq> ''human'' \<and> opponent_type = ''computer'' \<and>
                      first_player' \<noteq> ''computer'' \<and> first_player' \<noteq> ''human''
              then Printed
                ''ERROR: In the games against computer, the first move should be made by 'Computer' or 'Human'!''
              else Started opponent_type rows cols first_player')"

subsection \<open>Boards used as concrete inputs\<close>

definition empty_board :: "nat \<Rightarrow> nat \<Rightarrow> state" where
  "empty_board rows cols = replicate rows (replicate cols Empty)"

definition full_col_board :: state where
  "full_col_board =
     [[MarkA, Empty, Empty, Empty],
      [MarkB, Empty, Empty, Empty],
      [MarkA, Empty, Empty, Empty],
      [MarkB, MarkA, Empty, Empty]]"

definition easy_start :: game_ai where
  "easy_start = game_ai_init 4 4 ''computer'' ''Easy''"

definition easy_after_computer :: game_ai where
  "easy_after_computer =
     \<lparr>rows_number = 4, columns_number = 4, first_player = ''computer'',
      current_player = ''human'', game_mode = ''Easy'', last_move = ''Random'',
      start_move = Some ''Smart'',
      state = [[Empty, Empty, Empty, Empty],
               [Empty, Empty, Empty, Empty],
               [Empty, Empty, Empty, Empty],
               [MarkB, Empty, Empty, Empty]]\<rparr>"

definition easy_after_human :: game_ai where
  "easy_after_human =
     \<lparr>rows_number = 4, columns_number = 4, first_player = ''computer'',
      current_player = ''computer'', game_mode = ''Easy'', last_move = ''Random'',
      start_move = Some ''Smart'',
      state = [[Empty, Empty, Empty, Empty],
               [Empty, Empty, Empty, Empty],
               [Empty, Empty, Empty, Empty],
               [MarkB, MarkA, Empty, Empty]]\<rparr>"

definition easy_second_computer :: game_ai where
  "easy_second_computer =
     \<lparr>rows_number = 4, columns_number = 4, first_player = ''computer'',
      current_player = ''human'', game_mode = ''Easy'', last_move = ''Random'',
      start_move = Some ''Smart'',
      state = [[Empty, Empty, Empty, Empty],
               [Empty, Empty, Empty, Empty],
               [MarkB, Empty, Empty, Empty],
               [MarkB, MarkA, Empty, Empty]]\<rparr>"

definition score_board :: state where
  "score_board =
     [[Empty, Empty, Empty, Empty, Empty],
      [Empty, Empty, Empty, MarkA, Empty],
      [MarkB, Empty, Empty, MarkA, Empty],
      [MarkB, MarkB, MarkB, MarkB, MarkA]]"

text \<open>
  The score of one window as the evaluator's description gives it: four of the
  computer's marks, three with one empty cell, two with two empty cells, the same with
  the opposite sign for the human's marks, and 0 for every other window.
\<close>

definition window_score :: "cell list \<Rightarrow> int" where
  "window_score w =
     (let b = count_list w MarkB; a = count_list w MarkA; e = count_list w Empty in
      if b = 4 then 100 else if b = 3 \<and> e = 1 then 5 else if b = 2 \<and> e = 2 then 2
      else if a = 4 then - 100 else if a = 3 \<and> e = 1 then - 5 else if a = 2 \<and> e = 2 then - 2
      else 0)"

text \<open>
  Lines of four cells, for stating what the win detectors find. A line is winning when
  its first cell is not empty and the other cells hold the same mark. The four shapes
  start at a cell and run to the right, down, down to the right, and up to the right.
  \<open>scan_order\<close> lists the lines of a board of the given size: the horizontal ones row by
  row from the top, each row from the left; then the vertical ones, the diagonals down to
  the right and the diagonals up to the right, each group by starting row and then by
  starting column.
\<close>

definition cell_at :: "state \<Rightarrow> nat \<times> nat \<Rightarrow> cell" where
  "cell_at s p = s ! fst p ! snd p"

definition winning_line :: "state \<Rightarrow> (nat \<times> nat) list \<Rightarrow> bool" where
  "winning_line s l \<longleftrightarrow>
     (case l of [] \<Rightarrow> False
      | p # ps \<Rightarrow> cell_at s p \<noteq> Empty \<and> list_all (\<lambda>q. cell_at s q = cell_at s p) ps)"

definition hline :: "nat \<times> nat \<Rightarrow> (nat \<times> nat) list" where
  "hline p = (case p of (r, c) \<Rightarrow> [(r, c), (r, c + 1), (r, c + 2), (r, c + 3)])"

definition vline :: "nat \<times> nat \<Rightarrow> (nat \<times> nat) list" where
  "vline p = (case p of (r, c) \<Rightarrow> [(r, c), (r + 1, c), (r + 2, c), (r + 3, c)])"

definition dline :: "nat \<times> nat \<Rightarrow> (nat \<times> nat) list" where
  "dline p = (case p of (r, c) \<Rightarrow> [(r, c), (r + 1, c + 1), (r + 2, c + 2), (r + 3, c + 3)])"

definition uline :: "nat \<times> nat \<Rightarrow> (nat \<times> nat) list" where
  "uline p = (case p of (r, c) \<Rightarrow> [(r, c), (r - 1, c + 1), (r - 2, c + 2), (r - 3, c + 3)])"

definition straight_line :: "(nat \<times> nat) list \<Rightarrow> bool" where
  "straight_line l \<longleftrightarrow>
     l \<noteq> [] \<and>
     (l = hline (hd l) \<or> l = vline (hd l) \<or> l = dline (hd l) \<or>
      (3 \<le> fst (hd l) \<and> l = uline (hd l)))"

definition scan_order :: "nat \<Rightarrow> nat \<Rightarrow> (nat \<times> nat) list list" where
  "scan_order rows cols =
     map hline (List.product [0..<rows] [0..<cols - 3]) @
     map vline (List.product [0..<rows - 3] [0..<cols]) @
     map dline (List.product [0..<rows - 3] [0..<cols - 3]) @
     map uline (List.product [3..<rows] [0..<cols - 3])"

definition report :: "state \<Rightarrow> (nat \<times> nat) list \<Rightarrow> (cell \<times> (nat \<times> nat) list) option" where
  "report s l = (if winning_line s l then Some (cell_at s (hd l), l) else None)"

definition two_lines_board :: state where
  "two_lines_board =
     [[Empty, Empty, Empty, Empty, Empty],
      [MarkA, Empty, Empty, MarkB, Empty],
      [MarkA, Empty, MarkB, MarkA, Empty],
      [MarkA, MarkB, MarkA, MarkA, Empty],
      [MarkB, MarkA, MarkA, MarkA, MarkA]]"

text \<open>
  The configurations that the interface description accepts: opponent type, row and
  column counts in range, and a first mover that fits the opponent type.
\<close>

definition config_ok :: "string \<Rightarrow> int \<Rightarrow> int \<Rightarrow> string \<Rightarrow> bool" where
  "config_ok opponent_type rows cols first_mover \<longleftrightarrow>
     (opponent_type = ''human'' \<or> opponent_type = ''computer'') \<and>
     4 \<le> rows \<and> rows \<le> 8 \<and> 4 \<le> cols \<and> cols \<le> 16 \<and>
     (if opponent_type = ''human''
      then first_mover = ''player1'' \<or> first_mover = ''player2''
      else first_mover = ''human'' \<or> first_mover = ''computer'')"

section \<open>Properties of make_move\<close>

lemma rect_row_length: "rect s \<Longrightarrow> r < length s \<Longrightarrow> length (s ! r) = length (s ! 0)"
  unfolding rect_def list_all_length by blast

lemma make_move_loop_full:
  "n \<le> length s \<Longrightarrow> \<forall>r<n. c < length (s ! r) \<and> s ! r ! c \<noteq> Empty \<Longrightarrow>
   make_move_loop s (rev [0..<n]) c p = Inr s"
  by (induction n) auto

lemma make_move_loop_lowest:
  "n \<le> length s \<Longrightarrow> \<forall>r<n. c < length (s ! r) \<Longrightarrow> r < n \<Longrightarrow> s ! r ! c = Empty \<Longrightarrow>
   \<forall>r'. r < r' \<and> r' < n \<longrightarrow> s ! r' ! c \<noteq> Empty \<Longrightarrow>
   make_move_loop s (rev [0..<n]) c p = Inr (s[r := (s ! r)[c := p]])"
proof (induction n)
  case 0
  then show ?case by simp
next
  case (Suc n)
  show ?case
  proof (cases "r = n")
    case True
    from Suc.prems have len: "c < length (s ! n)" by simp
    from Suc.prems True have "s ! n ! c = Empty" by simp
    with len True show ?thesis by simp
  next
    case False
    with Suc.prems have rn: "r < n" by simp
    from Suc.prems rn have ne: "s ! n ! c \<noteq> Empty" by simp
    from Suc.prems have len: "c < length (s ! n)" by simp
    have "make_move_loop s (rev [0..<n]) c p = Inr (s[r := (s ! r)[c := p]])"
      using Suc.IH Suc.prems rn by simp
    with ne len show ?thesis by simp
  qed
qed

lemma lowest_empty_exists:
  fixes s :: state
  assumes "r0 < n" "s ! r0 ! c = Empty"
  shows "\<exists>r. r < n \<and> s ! r ! c = Empty \<and> (\<forall>r'. r < r' \<and> r' < n \<longrightarrow> s ! r' ! c \<noteq> Empty)"
  using assms
proof (induction n)
  case 0
  then show ?case by simp
next
  case (Suc n)
  show ?case
  proof (cases "s ! n ! c = Empty")
    case True
    then have "n < Suc n \<and> s ! n ! c = Empty \<and> (\<forall>r'. n < r' \<and> r' < Suc n \<longrightarrow> s ! r' ! c \<noteq> Empty)"
      by auto
    then show ?thesis by blast
  next
    case False
    with Suc.prems have "r0 < n" by (cases "r0 = n") auto
    with Suc.IH Suc.prems obtain r where
      r: "r < n" "s ! r ! c = Empty" "\<forall>r'. r < r' \<and> r' < n \<longrightarrow> s ! r' ! c \<noteq> Empty"
      by blast
    have "\<forall>r'. r < r' \<and> r' < Suc n \<longrightarrow> s ! r' ! c \<noteq> Empty"
      using r(3) False less_Suc_eq by auto
    with r show ?thesis by (meson less_Suc_eq)
  qed
qed

lemma gravity_adjacent:
  "gravity s \<Longrightarrow> Suc r < length s \<Longrightarrow> c < length (s ! 0) \<Longrightarrow> s ! r ! c \<noteq> Empty \<Longrightarrow>
   s ! Suc r ! c \<noteq> Empty"
proof -
  assume g: "gravity s" and r: "Suc r < length s" and c: "c < length (s ! 0)"
    and ne: "s ! r ! c \<noteq> Empty"
  from r have "r < length [0..<length s - 1]" by simp
  with g have "list_all (\<lambda>c. s ! r ! c = Empty \<or> s ! Suc r ! c \<noteq> Empty) [0..<length (s ! 0)]"
    unfolding gravity_def list_all_length by fastforce
  with c have "s ! r ! c = Empty \<or> s ! Suc r ! c \<noteq> Empty"
    unfolding list_all_length by fastforce
  with ne show ?thesis by simp
qed

lemma gravity_below:
  assumes "gravity s" "c < length (s ! 0)" "s ! r ! c \<noteq> Empty"
  shows "r + k < length s \<Longrightarrow> s ! (r + k) ! c \<noteq> Empty"
proof (induction k)
  case 0
  with assms show ?case by simp
next
  case (Suc k)
  then have "s ! (r + k) ! c \<noteq> Empty" by simp
  with gravity_adjacent [OF assms(1), of "r + k" c] Suc.prems assms(2)
  show ?case by simp
qed

lemma gravity_top_full:
  assumes "gravity s" "c < length (s ! 0)" "s ! 0 ! c \<noteq> Empty" "r < length s"
  shows "s ! r ! c \<noteq> Empty"
  using gravity_below [OF assms(1,2,3), of r] assms(4) by simp

text \<open>
  Claim C3. On a rectangular board and a column whose top cell is empty, make_move
  returns normally; the mark sits on the greatest row index whose cell in that column
  was empty, and the board is otherwise the input (the result is the input with that one
  cell replaced, so every other cell and the dimensions are unchanged).
\<close>

theorem make_move_lowest_empty:
  assumes "rect s" "c < length (s ! 0)" "s ! 0 ! c = Empty"
  shows "\<exists>r s'. make_move s c p = Inr s' \<and> r < length s \<and> s ! r ! c = Empty \<and>
           (\<forall>r'. r < r' \<and> r' < length s \<longrightarrow> s ! r' ! c \<noteq> Empty) \<and>
           s' ! r ! c = p \<and> length s' = length s \<and>
           (\<forall>r'<length s. length (s' ! r') = length (s ! r') \<and>
              (\<forall>c'<length (s ! r'). (r', c') \<noteq> (r, c) \<longrightarrow> s' ! r' ! c' = s ! r' ! c'))"
proof -
  from assms(1) have ne: "0 < length s" by (simp add: rect_def)
  have cols: "\<forall>r<length s. c < length (s ! r)"
    using rect_row_length [OF assms(1)] assms(2) by simp
  from lowest_empty_exists [OF ne assms(3)] obtain r where
    r: "r < length s" "s ! r ! c = Empty" "\<forall>r'. r < r' \<and> r' < length s \<longrightarrow> s ! r' ! c \<noteq> Empty"
    by blast
  let ?s' = "s[r := (s ! r)[c := p]]"
  have mv: "make_move s c p = Inr ?s'"
    unfolding make_move_def using make_move_loop_lowest [OF le_refl cols r] .
  have at: "?s' ! r ! c = p" using r(1) cols by simp
  have frame: "\<forall>r'<length s. length (?s' ! r') = length (s ! r') \<and>
              (\<forall>c'<length (s ! r'). (r', c') \<noteq> (r, c) \<longrightarrow> ?s' ! r' ! c' = s ! r' ! c')"
  proof (intro allI impI conjI)
    fix r' assume "r' < length s"
    then show "length (?s' ! r') = length (s ! r')" by (cases "r' = r") simp_all
  next
    fix r' c' assume "r' < length s" "c' < length (s ! r')" "(r', c') \<noteq> (r, c)"
    then show "?s' ! r' ! c' = s ! r' ! c'" by (cases "r' = r") auto
  qed
  from mv r at frame show ?thesis by (intro exI [of _ r] exI [of _ ?s']) simp
qed

theorem make_move_lowest_empty_witness:
  "rect (empty_board 4 4) \<and> (1::nat) < length (empty_board 4 4 ! 0) \<and>
   empty_board 4 4 ! 0 ! 1 = Empty \<and>
   (\<exists>r s'. make_move (empty_board 4 4) 1 MarkB = Inr s' \<and> r < length (empty_board 4 4) \<and>
      empty_board 4 4 ! r ! 1 = Empty \<and>
      (\<forall>r'. r < r' \<and> r' < length (empty_board 4 4) \<longrightarrow> empty_board 4 4 ! r' ! 1 \<noteq> Empty) \<and>
      s' ! r ! 1 = MarkB \<and> length s' = length (empty_board 4 4) \<and>
      (\<forall>r'<length (empty_board 4 4). length (s' ! r') = length (empty_board 4 4 ! r') \<and>
         (\<forall>c'<length (empty_board 4 4 ! r'). (r', c') \<noteq> (r, 1) \<longrightarrow>
            s' ! r' ! c' = empty_board 4 4 ! r' ! c')))"
proof -
  have h1: "rect (empty_board 4 4)" by code_simp
  have h2: "(1::nat) < length (empty_board 4 4 ! 0)" by code_simp
  have h3: "empty_board 4 4 ! 0 ! 1 = Empty" by code_simp
  from make_move_lowest_empty [OF h1 h2 h3, of MarkB] h1 h2 h3 show ?thesis by blast
qed

text \<open>
  Claim C10. On a well-formed board (a rectangle that respects gravity) a column whose
  top cell is occupied is full, and make_move on it returns the input board: no cell is
  changed and no error is raised.
\<close>

theorem make_move_full_column_noop:
  assumes "wf_board s" "c < length (s ! 0)" "s ! 0 ! c \<noteq> Empty"
  shows "make_move s c p = Inr s"
proof -
  from assms(1) have r: "rect s" and g: "gravity s" by (simp_all add: wf_board_def)
  have "\<forall>r<length s. c < length (s ! r) \<and> s ! r ! c \<noteq> Empty"
    using rect_row_length [OF r] gravity_top_full [OF g assms(2,3)] assms(2) by simp
  then show ?thesis
    unfolding make_move_def using make_move_loop_full [OF le_refl] by blast
qed

theorem make_move_full_column_noop_witness:
  "wf_board full_col_board \<and> (0::nat) < length (full_col_board ! 0) \<and>
   full_col_board ! 0 ! 0 \<noteq> Empty \<and> make_move full_col_board 0 MarkB = Inr full_col_board"
proof -
  have h1: "wf_board full_col_board" by code_simp
  have h2: "(0::nat) < length (full_col_board ! 0)" by code_simp
  have h3: "full_col_board ! 0 ! 0 \<noteq> Empty" by code_simp
  from make_move_full_column_noop [OF h1 h2 h3, of MarkB] h1 h2 h3 show ?thesis by blast
qed

lemma make_move_loop_returns:
  "n \<le> length s \<Longrightarrow> \<forall>r<n. c < length (s ! r) \<Longrightarrow>
   \<exists>s'. make_move_loop s (rev [0..<n]) c p = Inr s'"
  by (induction n) auto

lemma make_move_returns:
  assumes "rect s" "c < length (s ! 0)"
  shows "\<exists>s'. make_move s c p = Inr s'"
proof -
  have "\<forall>r<length s. c < length (s ! r)"
    using rect_row_length [OF assms(1)] assms(2) by simp
  then show ?thesis
    unfolding make_move_def using make_move_loop_returns [OF le_refl] by blast
qed

text \<open>
  Claim C2, as the code has it. A move on a column whose top cell is occupied is not
  signalled: make_move returns normally for it, as for every column of a rectangular
  board. Legality is left to the callers, and get_possible_moves never lists such a
  column.
\<close>

theorem make_move_full_column_returns:
  assumes "rect s" "c < length (s ! 0)" "s ! 0 ! c \<noteq> Empty"
  shows "(\<exists>s'. make_move s c p = Inr s') \<and> c \<notin> set (get_possible_moves s)"
  using make_move_returns [OF assms(1,2)] assms(3) by (simp add: get_possible_moves_def)

theorem make_move_full_column_returns_witness:
  "rect full_col_board \<and> (0::nat) < length (full_col_board ! 0) \<and>
   full_col_board ! 0 ! 0 \<noteq> Empty \<and>
   (\<exists>s'. make_move full_col_board 0 MarkA = Inr s') \<and>
   0 \<notin> set (get_possible_moves full_col_board)"
proof -
  have h1: "rect full_col_board" by code_simp
  have h2: "(0::nat) < length (full_col_board ! 0)" by code_simp
  have h3: "full_col_board ! 0 ! 0 \<noteq> Empty" by code_simp
  from make_move_full_column_returns [OF h1 h2 h3, of MarkA] h1 h2 h3 show ?thesis by blast
qed

text \<open>
  The claim as the specification words it fails on a board whose column 0 is full:
  make_move returns a board, it does not fail.
\<close>

theorem make_move_full_column_no_error:
  "full_col_board ! 0 ! 0 \<noteq> Empty \<and> \<not> isl (make_move full_col_board 0 MarkA)"
  by code_simp

section \<open>Validation\<close>

lemma validate_rejects:
  assumes n: "\<not> config_ok ot rows cols fp"
  shows "\<exists>msg. validate ot (Some rows) (Some cols) fp = Printed msg \<and> take 6 msg = ''ERROR:''"
proof -
  have hc: "''human'' \<noteq> ''computer''" by simp
  consider (a) "ot \<noteq> ''human''" "ot \<noteq> ''computer''"
    | (b) "ot = ''human'' \<or> ot = ''computer''" "rows < 4 \<or> rows > 8"
    | (c) "ot = ''human'' \<or> ot = ''computer''" "\<not> (rows < 4 \<or> rows > 8)" "cols < 4 \<or> cols > 16"
    | (d) "ot = ''human''" "\<not> (rows < 4 \<or> rows > 8)" "\<not> (cols < 4 \<or> cols > 16)"
          "fp \<noteq> ''player1''" "fp \<noteq> ''player2''"
    | (e) "ot = ''computer''" "\<not> (rows < 4 \<or> rows > 8)" "\<not> (cols < 4 \<or> cols > 16)"
          "fp \<noteq> ''computer''" "fp \<noteq> ''human''"
    using n hc unfolding config_ok_def by (cases "ot = ''human''") (simp_all, linarith+)
  then show ?thesis
  proof cases
    case a
    then show ?thesis by (simp add: validate_def)
  next
    case b
    then show ?thesis by (auto simp add: validate_def)
  next
    case c
    then show ?thesis by (auto simp add: validate_def)
  next
    case d
    then show ?thesis by (simp add: validate_def)
  next
    case e
    then show ?thesis by (simp add: validate_def)
  qed
qed

lemma validate_accepts:
  "config_ok ot rows cols fp \<Longrightarrow>
   validate ot (Some rows) (Some cols) fp = Started ot rows cols fp"
  unfolding config_ok_def validate_def by (auto split: if_splits)

text \<open>
  Claim C8. A configuration that breaks one of the conditions (opponent type, row count
  in 4..8, column count in 4..16, first mover fitting the opponent type) makes validate
  print a message that starts with ERROR: and start nothing; a row or column count that
  is not a number prints a message or the ValueError and starts nothing; a configuration
  that meets all the conditions starts the game with exactly these values.
\<close>

theorem validate_starts_iff_config_ok:
  "(config_ok ot rows cols fp \<longrightarrow> validate ot (Some rows) (Some cols) fp = Started ot rows cols fp) \<and>
   (\<not> config_ok ot rows cols fp \<longrightarrow>
      (\<exists>msg. validate ot (Some rows) (Some cols) fp = Printed msg \<and> take 6 msg = ''ERROR:'')) \<and>
   (\<exists>msg. validate ot None cs fp = Printed msg \<or> validate ot None cs fp = PrintedValueError) \<and>
   (\<exists>msg. validate ot rs None fp = Printed msg \<or> validate ot rs None fp = PrintedValueError)"
proof (intro conjI impI)
  assume "config_ok ot rows cols fp"
  then show "validate ot (Some rows) (Some cols) fp = Started ot rows cols fp"
    by (rule validate_accepts)
next
  assume "\<not> config_ok ot rows cols fp"
  then show "\<exists>msg. validate ot (Some rows) (Some cols) fp = Printed msg \<and> take 6 msg = ''ERROR:''"
    by (rule validate_rejects)
next
  show "\<exists>msg. validate ot None cs fp = Printed msg \<or> validate ot None cs fp = PrintedValueError"
    by (simp add: validate_def)
next
  show "\<exists>msg. validate ot rs None fp = Printed msg \<or> validate ot rs None fp = PrintedValueError"
    by (cases rs) (simp_all add: validate_def)
qed

theorem validate_starts_iff_config_ok_witness:
  "config_ok ''computer'' 6 7 ''human'' \<and>
   validate ''computer'' (Some 6) (Some 7) ''human'' = Started ''computer'' 6 7 ''human'' \<and>
   \<not> config_ok ''human'' 6 17 ''player1'' \<and>
   (\<exists>msg. validate ''human'' (Some 6) (Some 17) ''player1'' = Printed msg \<and>
      take 6 msg = ''ERROR:'')"
proof -
  have h1: "config_ok ''computer'' 6 7 ''human''" by (simp add: config_ok_def)
  have h2: "\<not> config_ok ''human'' 6 17 ''player1''" by (simp add: config_ok_def)
  note a = validate_starts_iff_config_ok [of "''computer''" 6 7 "''human''" None None]
  note b = validate_starts_iff_config_ok [of "''human''" 6 17 "''player1''" None None]
  from a h1 have c1:
    "validate ''computer'' (Some 6) (Some 7) ''human'' = Started ''computer'' 6 7 ''human''"
    by (elim conjE) (erule mp)
  from b h2 have c2:
    "\<exists>msg. validate ''human'' (Some 6) (Some 17) ''player1'' = Printed msg \<and>
       take 6 msg = ''ERROR:''"
    by (elim conjE) (erule (1) mp)
  from h1 c1 h2 c2 show ?thesis by (intro conjI)
qed

section \<open>The computer's turn in Easy mode\<close>

text \<open>
  Claim C1 says that in Easy mode the first computer turn of a match plays the column of
  find_best_move at depth 0 and that every later computer turn plays a random legal
  column, the flag having flipped after the first move. The code at a 4 by 4 match that
  the computer opens: the first turn plays column 0, the column of find_best_move at
  depth 0, although the draw at hand is 3; the human answers in column 1; the flag
  last_move still holds Random, because the turn assigned start_move instead; so the
  second computer turn, with the legal draw 3 at hand, again plays the column of
  find_best_move at depth 0, column 0, leaves column 3 empty, and leaves the flag at
  Random once more.
\<close>

theorem easy_mode_second_turn_not_random:
  "last_move easy_start = ''Random'' \<and>
   find_best_move 0 (state easy_start) = Inr (Some 0) \<and>
   computer_turn easy_start [3] = Some (Inr easy_after_computer) \<and>
   human_click easy_after_computer 1 = Inr easy_after_human \<and>
   last_move easy_after_human = ''Random'' \<and>
   state easy_after_human ! 0 ! 3 = Empty \<and>
   find_best_move 0 (state easy_after_human) = Inr (Some 0) \<and>
   computer_turn easy_after_human [3] = Some (Inr easy_second_computer) \<and>
   state easy_second_computer ! 2 ! 0 = MarkB \<and>
   state easy_second_computer ! 3 ! 3 = Empty \<and>
   last_move easy_second_computer = ''Random''"
proof -
  have 0: "last_move easy_start = ''Random''" by code_simp
  have 1: "find_best_move 0 (state easy_start) = Inr (Some 0)" by code_simp
  have 2: "computer_turn easy_start [3] = Some (Inr easy_after_computer)" by code_simp
  have 3: "human_click easy_after_computer 1 = Inr easy_after_human" by code_simp
  have 4: "last_move easy_after_human = ''Random''" by code_simp
  have 5: "state easy_after_human ! 0 ! 3 = Empty" by code_simp
  have 6: "find_best_move 0 (state easy_after_human) = Inr (Some 0)" by code_simp
  have 7: "computer_turn easy_after_human [3] = Some (Inr easy_second_computer)" by code_simp
  have 8: "state easy_second_computer ! 2 ! 0 = MarkB" by code_simp
  have 9: "state easy_second_computer ! 3 ! 3 = Empty" by code_simp
  have 10: "last_move easy_second_computer = ''Random''" by code_simp
  from 0 1 2 3 4 5 6 7 8 9 10 show ?thesis by (intro conjI)
qed

section \<open>The static evaluator\<close>

lemma upt_0_4: "[0..<4] = [0, 1, 2, 3]"
  by code_simp

lemma take4_drop:
  "c + 4 \<le> length row \<Longrightarrow> take 4 (drop c row) = [row ! c, row ! (c + 1), row ! (c + 2), row ! (c + 3)]"
proof -
  assume a: "c + 4 \<le> length row"
  have "take 4 (drop c row) = map (\<lambda>i. drop c row ! i) [0..<4]"
    using a by (intro nth_equalityI) auto
  also have "\<dots> = [row ! c, row ! (c + 1), row ! (c + 2), row ! (c + 3)]"
    using a by (simp add: upt_0_4)
  finally show ?thesis .
qed

lemma count_list_sum3:
  "count_list w Empty + count_list w MarkA + count_list w MarkB = length w"
proof (induction w)
  case Nil
  then show ?case by simp
next
  case (Cons x w)
  then show ?case by (cases x) simp_all
qed

lemma evaluate_window_eq_score: "length w = 4 \<Longrightarrow> evaluate_window w = window_score w"
  using count_list_sum3 [of w]
  unfolding evaluate_window_def window_score_def Let_def by (auto split: if_splits)

lemma fold_add: "fold (\<lambda>x (acc::int). acc + f x) xs a = a + sum_list (map f xs)"
  by (induction xs arbitrary: a) simp_all

lemma fold_fold_add:
  "fold (\<lambda>x (acc::int). fold (\<lambda>y acc. acc + f x y) (ys x) acc) xs a =
   a + sum_list (map (\<lambda>x. sum_list (map (f x) (ys x))) xs)"
  by (induction xs arbitrary: a) (simp_all add: fold_add)

lemma sum_list_upt: "sum_list (map f [m..<n]) = (\<Sum>i = m..<n. (f i :: int))"
  by (simp add: interv_sum_list_conv_sum_set_nat)

lemma sum_list_rows: "sum_list (map g xs) = (\<Sum>r = 0..<length xs. (g (xs ! r) :: int))"
proof -
  have "map g xs = map (\<lambda>r. g (xs ! r)) [0..<length xs]"
    by (intro nth_equalityI) simp_all
  then show ?thesis by (simp add: sum_list_upt)
qed

lemma rows_part:
  assumes "rect s"
  shows "sum_list (map (\<lambda>row. sum_list (map (\<lambda>col. evaluate_window (take 4 (drop col row)))
            [0..<length row - 3])) s) =
    (\<Sum>r = 0..<length s. \<Sum>c = 0..<length (s ! 0) - 3.
        window_score [s ! r ! c, s ! r ! (c + 1), s ! r ! (c + 2), s ! r ! (c + 3)])"
proof -
  have "sum_list (map (\<lambda>row. sum_list (map (\<lambda>col. evaluate_window (take 4 (drop col row)))
            [0..<length row - 3])) s) =
    (\<Sum>r = 0..<length s. \<Sum>c = 0..<length (s ! r) - 3. evaluate_window (take 4 (drop c (s ! r))))"
    unfolding sum_list_upt by (rule sum_list_rows)
  also have "\<dots> = (\<Sum>r = 0..<length s. \<Sum>c = 0..<length (s ! 0) - 3.
        window_score [s ! r ! c, s ! r ! (c + 1), s ! r ! (c + 2), s ! r ! (c + 3)])"
  proof (rule sum.cong [OF refl])
    fix r assume "r \<in> {0..<length s}"
    then have len: "length (s ! r) = length (s ! 0)"
      using rect_row_length [OF assms] by simp
    have "(\<Sum>c = 0..<length (s ! 0) - 3. evaluate_window (take 4 (drop c (s ! r)))) =
        (\<Sum>c = 0..<length (s ! 0) - 3.
          window_score [s ! r ! c, s ! r ! (c + 1), s ! r ! (c + 2), s ! r ! (c + 3)])"
    proof (rule sum.cong [OF refl])
      fix c assume "c \<in> {0..<length (s ! 0) - 3}"
      with len have "c + 4 \<le> length (s ! r)" by simp
      then have "take 4 (drop c (s ! r)) =
          [s ! r ! c, s ! r ! (c + 1), s ! r ! (c + 2), s ! r ! (c + 3)]"
        by (rule take4_drop)
      then show "evaluate_window (take 4 (drop c (s ! r))) =
          window_score [s ! r ! c, s ! r ! (c + 1), s ! r ! (c + 2), s ! r ! (c + 3)]"
        by (simp add: evaluate_window_eq_score)
    qed
    with len show "(\<Sum>c = 0..<length (s ! r) - 3. evaluate_window (take 4 (drop c (s ! r)))) =
        (\<Sum>c = 0..<length (s ! 0) - 3.
          window_score [s ! r ! c, s ! r ! (c + 1), s ! r ! (c + 2), s ! r ! (c + 3)])"
      by simp
  qed
  finally show ?thesis .
qed

lemma window_part:
  "sum_list (map (\<lambda>x. sum_list (map (\<lambda>y. evaluate_window (map (g x y) [0..<4])) [m..<n]))
      [k..<l]) =
   (\<Sum>x = k..<l. \<Sum>y = m..<n. window_score [g x y 0, g x y 1, g x y 2, g x y 3])"
  by (simp add: sum_list_upt upt_0_4 evaluate_window_eq_score)

text \<open>
  Claim C6. On a rectangular board the evaluator's score is the sum of the window scores
  over every window of four cells: in every row, in every column, on every diagonal
  running down to the right and on every diagonal running down to the left. The score of
  a window is the table of window_score.
\<close>

theorem evaluate_sum_of_windows:
  assumes "rect s"
  shows "evaluate s =
    (\<Sum>r = 0..<length s. \<Sum>c = 0..<length (s ! 0) - 3.
        window_score [s ! r ! c, s ! r ! (c + 1), s ! r ! (c + 2), s ! r ! (c + 3)])
  + (\<Sum>c = 0..<length (s ! 0). \<Sum>r = 0..<length s - 3.
        window_score [s ! r ! c, s ! (r + 1) ! c, s ! (r + 2) ! c, s ! (r + 3) ! c])
  + (\<Sum>r = 0..<length s - 3. \<Sum>c = 0..<length (s ! 0) - 3.
        window_score [s ! r ! c, s ! (r + 1) ! (c + 1), s ! (r + 2) ! (c + 2),
                      s ! (r + 3) ! (c + 3)])
  + (\<Sum>r = 0..<length s - 3. \<Sum>c = 3..<length (s ! 0).
        window_score [s ! r ! c, s ! (r + 1) ! (c - 1), s ! (r + 2) ! (c - 2),
                      s ! (r + 3) ! (c - 3)])"
proof -
  have "evaluate s =
      sum_list (map (\<lambda>row. sum_list (map (\<lambda>col. evaluate_window (take 4 (drop col row)))
            [0..<length row - 3])) s)
    + sum_list (map (\<lambda>col. sum_list (map (\<lambda>row.
            evaluate_window (map (\<lambda>i. s ! (row + i) ! col) [0..<4])) [0..<length s - 3]))
        [0..<length (s ! 0)])
    + sum_list (map (\<lambda>row. sum_list (map (\<lambda>col.
            evaluate_window (map (\<lambda>i. s ! (row + i) ! (col + i)) [0..<4]))
          [0..<length (s ! 0) - 3])) [0..<length s - 3])
    + sum_list (map (\<lambda>row. sum_list (map (\<lambda>col.
            evaluate_window (map (\<lambda>i. s ! (row + i) ! (col - i)) [0..<4]))
          [3..<length (s ! 0)])) [0..<length s - 3])"
    unfolding evaluate_def Let_def fold_fold_add by simp
  also have "\<dots> =
    (\<Sum>r = 0..<length s. \<Sum>c = 0..<length (s ! 0) - 3.
        window_score [s ! r ! c, s ! r ! (c + 1), s ! r ! (c + 2), s ! r ! (c + 3)])
  + (\<Sum>c = 0..<length (s ! 0). \<Sum>r = 0..<length s - 3.
        window_score [s ! r ! c, s ! (r + 1) ! c, s ! (r + 2) ! c, s ! (r + 3) ! c])
  + (\<Sum>r = 0..<length s - 3. \<Sum>c = 0..<length (s ! 0) - 3.
        window_score [s ! r ! c, s ! (r + 1) ! (c + 1), s ! (r + 2) ! (c + 2),
                      s ! (r + 3) ! (c + 3)])
  + (\<Sum>r = 0..<length s - 3. \<Sum>c = 3..<length (s ! 0).
        window_score [s ! r ! c, s ! (r + 1) ! (c - 1), s ! (r + 2) ! (c - 2),
                      s ! (r + 3) ! (c - 3)])"
    unfolding rows_part [OF assms]
      window_part [of "\<lambda>col row i. s ! (row + i) ! col"]
      window_part [of "\<lambda>row col i. s ! (row + i) ! (col + i)"]
      window_part [of "\<lambda>row col i. s ! (row + i) ! (col - i)"]
    by simp
  finally show ?thesis .
qed

theorem evaluate_sum_of_windows_witness:
  "rect score_board \<and> evaluate score_board = 100 \<and>
   evaluate score_board =
    (\<Sum>r = 0..<length score_board. \<Sum>c = 0..<length (score_board ! 0) - 3.
        window_score [score_board ! r ! c, score_board ! r ! (c + 1),
                      score_board ! r ! (c + 2), score_board ! r ! (c + 3)])
  + (\<Sum>c = 0..<length (score_board ! 0). \<Sum>r = 0..<length score_board - 3.
        window_score [score_board ! r ! c, score_board ! (r + 1) ! c,
                      score_board ! (r + 2) ! c, score_board ! (r + 3) ! c])
  + (\<Sum>r = 0..<length score_board - 3. \<Sum>c = 0..<length (score_board ! 0) - 3.
        window_score [score_board ! r ! c, score_board ! (r + 1) ! (c + 1),
                      score_board ! (r + 2) ! (c + 2), score_board ! (r + 3) ! (c + 3)])
  + (\<Sum>r = 0..<length score_board - 3. \<Sum>c = 3..<length (score_board ! 0).
        window_score [score_board ! r ! c, score_board ! (r + 1) ! (c - 1),
                      score_board ! (r + 2) ! (c - 2), score_board ! (r + 3) ! (c - 3)])"
proof -
  have h1: "rect score_board" by code_simp
  have h2: "evaluate score_board = 100" by code_simp
  from h1 h2 evaluate_sum_of_windows [OF h1] show ?thesis by (intro conjI)
qed

section \<open>The win detectors\<close>

lemma first_some_append:
  "first_some f (xs @ ys) = (case first_some f xs of Some y \<Rightarrow> Some y | None \<Rightarrow> first_some f ys)"
  by (induction xs) (auto split: option.splits)

lemma first_some_map: "first_some f (map h xs) = first_some (\<lambda>x. f (h x)) xs"
  by (induction xs) (auto split: option.splits)

lemma first_some_product:
  "first_some (\<lambda>r. first_some (f r) cs) rs = first_some (\<lambda>p. f (fst p) (snd p)) (List.product rs cs)"
  by (induction rs) (auto simp: first_some_append first_some_map split: option.splits)

lemma is_a_winner_scan:
  "is_a_winner s = first_some (report s) (scan_order (length s) (length (s ! 0)))"
proof -
  have h: "\<And>r c. (if s ! r ! c = s ! r ! (c + 1) \<and> s ! r ! (c + 1) = s ! r ! (c + 2) \<and>
                s ! r ! (c + 2) = s ! r ! (c + 3) \<and> s ! r ! c \<noteq> Empty
             then Some (s ! r ! c, [(r, c), (r, c + 1), (r, c + 2), (r, c + 3)])
             else None) = report s (hline (r, c))"
    by (auto simp: report_def winning_line_def hline_def cell_at_def)
  have v: "\<And>r c. (if s ! r ! c = s ! (r + 1) ! c \<and> s ! (r + 1) ! c = s ! (r + 2) ! c \<and>
                s ! (r + 2) ! c = s ! (r + 3) ! c \<and> s ! r ! c \<noteq> Empty
             then Some (s ! r ! c, [(r, c), (r + 1, c), (r + 2, c), (r + 3, c)])
             else None) = report s (vline (r, c))"
    by (auto simp: report_def winning_line_def vline_def cell_at_def)
  have d: "\<And>r c. (if s ! r ! c = s ! (r + 1) ! (c + 1) \<and>
                s ! (r + 1) ! (c + 1) = s ! (r + 2) ! (c + 2) \<and>
                s ! (r + 2) ! (c + 2) = s ! (r + 3) ! (c + 3) \<and> s ! r ! c \<noteq> Empty
             then Some (s ! r ! c, [(r, c), (r + 1, c + 1), (r + 2, c + 2), (r + 3, c + 3)])
             else None) = report s (dline (r, c))"
    by (auto simp: report_def winning_line_def dline_def cell_at_def)
  have u: "\<And>r c. (if s ! r ! c = s ! (r - 1) ! (c + 1) \<and>
                s ! (r - 1) ! (c + 1) = s ! (r - 2) ! (c + 2) \<and>
                s ! (r - 2) ! (c + 2) = s ! (r - 3) ! (c + 3) \<and> s ! r ! c \<noteq> Empty
             then Some (s ! r ! c, [(r, c), (r - 1, c + 1), (r - 2, c + 2), (r - 3, c + 3)])
             else None) = report s (uline (r, c))"
    by (auto simp: report_def winning_line_def uline_def cell_at_def)
  show ?thesis
    unfolding is_a_winner_def Let_def h v d u first_some_product scan_order_def
      first_some_append first_some_map
    by (simp split: option.splits)
qed

lemma scan_order_member:
  assumes "l \<in> set (scan_order rows cols)"
  shows "length l = 4 \<and> straight_line l \<and> (\<forall>p\<in>set l. fst p < rows \<and> snd p < cols)"
proof -
  from assms consider
      (h) r c where "l = hline (r, c)" "r < rows" "c < cols - 3"
    | (v) r c where "l = vline (r, c)" "r < rows - 3" "c < cols"
    | (d) r c where "l = dline (r, c)" "r < rows - 3" "c < cols - 3"
    | (u) r c where "l = uline (r, c)" "3 \<le> r" "r < rows" "c < cols - 3"
    unfolding scan_order_def by auto
  then show ?thesis
  proof cases
    case h
    then show ?thesis by (auto simp: hline_def straight_line_def)
  next
    case v
    then show ?thesis by (auto simp: vline_def straight_line_def)
  next
    case d
    then show ?thesis by (auto simp: dline_def straight_line_def)
  next
    case u
    then show ?thesis by (auto simp: uline_def straight_line_def)
  qed
qed

lemma winning_line_cells:
  "winning_line s l \<Longrightarrow> p \<in> set l \<Longrightarrow> cell_at s p = cell_at s (hd l)"
  by (cases l) (auto simp: winning_line_def list_all_iff)

lemma winning_line_mark: "winning_line s l \<Longrightarrow> cell_at s (hd l) \<noteq> Empty"
  by (cases l) (auto simp: winning_line_def)

lemma first_some_report:
  "first_some (report s) xs = map_option (\<lambda>l. (cell_at s (hd l), l)) (find (winning_line s) xs)"
  by (induction xs) (auto simp: report_def)

text \<open>
  Claim C4. On a rectangular board is_a_winner returns None, and then no line of the
  scan order is winning, or it returns a mark that is not Empty with four coordinates
  that lie on the board, all hold that mark, and form one straight line of one of the
  four shapes, listed from its starting cell on; this line is the first winning line of
  the scan order (rows, then columns, then diagonals down to the right, then diagonals up
  to the right).
\<close>

theorem is_a_winner_first_in_scan_order:
  assumes "rect s"
  shows "(is_a_winner s = None \<and>
            (\<forall>l\<in>set (scan_order (length s) (length (s ! 0))). \<not> winning_line s l)) \<or>
         (\<exists>m l i. is_a_winner s = Some (m, l) \<and> m \<noteq> Empty \<and> length l = 4 \<and>
            (\<forall>p\<in>set l. fst p < length s \<and> snd p < length (s ! 0) \<and> cell_at s p = m) \<and>
            straight_line l \<and>
            i < length (scan_order (length s) (length (s ! 0))) \<and>
            scan_order (length s) (length (s ! 0)) ! i = l \<and>
            (\<forall>j<i. \<not> winning_line s (scan_order (length s) (length (s ! 0)) ! j)))"
proof -
  let ?scan = "scan_order (length s) (length (s ! 0))"
  have eq: "is_a_winner s = map_option (\<lambda>l. (cell_at s (hd l), l)) (find (winning_line s) ?scan)"
    by (simp only: is_a_winner_scan first_some_report)
  show ?thesis
  proof (cases "find (winning_line s) ?scan")
    case None
    then have "\<forall>l\<in>set ?scan. \<not> winning_line s l" by (simp add: find_None_iff)
    moreover from None eq have "is_a_winner s = None" by simp
    ultimately show ?thesis by blast
  next
    case (Some l)
    then obtain i where i: "i < length ?scan" "winning_line s (?scan ! i)" "l = ?scan ! i"
      "\<forall>j<i. \<not> winning_line s (?scan ! j)"
      unfolding find_Some_iff by blast
    from i(1,3) have mem: "l \<in> set ?scan" by simp
    from scan_order_member [OF mem] have
      sl: "length l = 4" "straight_line l" "\<forall>p\<in>set l. fst p < length s \<and> snd p < length (s ! 0)"
      by blast+
    from i(2,3) have w: "winning_line s l" by simp
    have cells: "\<forall>p\<in>set l. fst p < length s \<and> snd p < length (s ! 0) \<and>
        cell_at s p = cell_at s (hd l)"
      using sl(3) winning_line_cells [OF w] by blast
    from Some eq have "is_a_winner s = Some (cell_at s (hd l), l)" by simp
    with winning_line_mark [OF w] sl(1,2) cells i(1,3,4) show ?thesis by blast
  qed
qed

theorem is_a_winner_first_in_scan_order_witness:
  "rect two_lines_board \<and>
   winning_line two_lines_board (scan_order 5 5 ! 26) \<and>
   is_a_winner two_lines_board = Some (MarkA, [(4, 1), (4, 2), (4, 3), (4, 4)]) \<and>
   ((is_a_winner two_lines_board = None \<and>
       (\<forall>l\<in>set (scan_order (length two_lines_board) (length (two_lines_board ! 0))).
          \<not> winning_line two_lines_board l)) \<or>
    (\<exists>m l i. is_a_winner two_lines_board = Some (m, l) \<and> m \<noteq> Empty \<and> length l = 4 \<and>
       (\<forall>p\<in>set l. fst p < length two_lines_board \<and> snd p < length (two_lines_board ! 0) \<and>
          cell_at two_lines_board p = m) \<and>
       straight_line l \<and>
       i < length (scan_order (length two_lines_board) (length (two_lines_board ! 0))) \<and>
       scan_order (length two_lines_board) (length (two_lines_board ! 0)) ! i = l \<and>
       (\<forall>j<i. \<not> winning_line two_lines_board
          (scan_order (length two_lines_board) (length (two_lines_board ! 0)) ! j))))"
proof -
  have h1: "rect two_lines_board" by code_simp
  have h2: "winning_line two_lines_board (scan_order 5 5 ! 26)" by code_simp
  have h3: "is_a_winner two_lines_board = Some (MarkA, [(4, 1), (4, 2), (4, 3), (4, 4)])"
    by code_simp
  from h1 h2 h3 is_a_winner_first_in_scan_order [OF h1] show ?thesis by (intro conjI)
qed

lemma scan_order_ex:
  "(\<exists>l\<in>set (scan_order R C). Q l) \<longleftrightarrow>
     (\<exists>r<R. \<exists>c<C - 3. Q (hline (r, c))) \<or>
     (\<exists>r<R - 3. \<exists>c<C. Q (vline (r, c))) \<or>
     (\<exists>r<R - 3. \<exists>c<C - 3. Q (dline (r, c))) \<or>
     (\<exists>r<R - 3. \<exists>c<C - 3. Q (uline (r + 3, c)))"
proof -
  have u: "(\<exists>r. 3 \<le> r \<and> r < R \<and> (\<exists>c<C - 3. Q (uline (r, c)))) \<longleftrightarrow>
      (\<exists>r<R - 3. \<exists>c<C - 3. Q (uline (r + 3, c)))"
  proof
    assume "\<exists>r. 3 \<le> r \<and> r < R \<and> (\<exists>c<C - 3. Q (uline (r, c)))"
    then obtain r c where "3 \<le> r" "r < R" "c < C - 3" "Q (uline (r, c))" by blast
    then have "r - 3 < R - 3 \<and> c < C - 3 \<and> Q (uline (r - 3 + 3, c))" by simp
    then show "\<exists>r<R - 3. \<exists>c<C - 3. Q (uline (r + 3, c))" by blast
  next
    assume "\<exists>r<R - 3. \<exists>c<C - 3. Q (uline (r + 3, c))"
    then obtain r c where "r < R - 3" "c < C - 3" "Q (uline (r + 3, c))" by blast
    then have "3 \<le> r + 3 \<and> r + 3 < R \<and> c < C - 3 \<and> Q (uline (r + 3, c))" by simp
    then show "\<exists>r. 3 \<le> r \<and> r < R \<and> (\<exists>c<C - 3. Q (uline (r, c)))" by blast
  qed
  have "(\<exists>l\<in>set (scan_order R C). Q l) \<longleftrightarrow>
     (\<exists>r<R. \<exists>c<C - 3. Q (hline (r, c))) \<or>
     (\<exists>r<R - 3. \<exists>c<C. Q (vline (r, c))) \<or>
     (\<exists>r<R - 3. \<exists>c<C - 3. Q (dline (r, c))) \<or>
     (\<exists>r. 3 \<le> r \<and> r < R \<and> (\<exists>c<C - 3. Q (uline (r, c))))"
    unfolding scan_order_def set_append set_map bex_Un by auto
  with u show ?thesis by simp
qed

lemma is_winner_lines:
  assumes "rect s"
  shows "is_winner s p \<longleftrightarrow>
    (\<exists>l\<in>set (scan_order (length s) (length (s ! 0))). \<forall>q\<in>set l. cell_at s q = p)"
proof -
  have rows: "list_ex (\<lambda>row. list_ex (\<lambda>col. list_all (\<lambda>cell. cell = p) (take 4 (drop col row)))
                [0..<length row - 3]) s \<longleftrightarrow>
      (\<exists>r<length s. \<exists>c<length (s ! 0) - 3. \<forall>q\<in>set (hline (r, c)). cell_at s q = p)"
    (is "?L = ?R")
  proof
    assume ?L
    then obtain row c where rc: "row \<in> set s" "c < length row - 3"
        "list_all (\<lambda>cell. cell = p) (take 4 (drop c row))"
      by (auto simp: list_ex_iff)
    from rc(1) obtain r where r: "r < length s" "row = s ! r" by (auto simp: in_set_conv_nth)
    with rect_row_length [OF assms] have len: "length row = length (s ! 0)" by simp
    from rc(2) have "c + 4 \<le> length row" by simp
    from take4_drop [OF this] rc(3) r(2)
    have "\<forall>q\<in>set (hline (r, c)). cell_at s q = p" by (simp add: hline_def cell_at_def)
    with r(1) rc(2) len show ?R by auto
  next
    assume ?R
    then obtain r c where rc: "r < length s" "c < length (s ! 0) - 3"
        "\<forall>q\<in>set (hline (r, c)). cell_at s q = p" by blast
    from rect_row_length [OF assms rc(1)] have len: "length (s ! r) = length (s ! 0)" .
    with rc(2) have "c + 4 \<le> length (s ! r)" by simp
    from take4_drop [OF this] rc(3)
    have "list_all (\<lambda>cell. cell = p) (take 4 (drop c (s ! r)))"
      by (simp add: hline_def cell_at_def)
    moreover from rc(1) have "s ! r \<in> set s" by simp
    moreover from rc(2) len have "c \<in> set [0..<length (s ! r) - 3]" by simp
    ultimately show ?L unfolding list_ex_iff by blast
  qed
  have cols: "list_ex (\<lambda>col. list_ex (\<lambda>row. list_all (\<lambda>i. s ! (row + i) ! col = p) [0..<4])
                [0..<length s - 3]) [0..<length (s ! 0)] \<longleftrightarrow>
      (\<exists>r<length s - 3. \<exists>c<length (s ! 0). \<forall>q\<in>set (vline (r, c)). cell_at s q = p)"
    unfolding list_ex_iff upt_0_4 vline_def cell_at_def Bex_def by simp blast
  have diag: "list_ex (\<lambda>row. list_ex (\<lambda>col. list_all (\<lambda>i. s ! (row + i) ! (col + i) = p) [0..<4])
                [0..<length (s ! 0) - 3]) [0..<length s - 3] \<longleftrightarrow>
      (\<exists>r<length s - 3. \<exists>c<length (s ! 0) - 3. \<forall>q\<in>set (dline (r, c)). cell_at s q = p)"
    unfolding list_ex_iff upt_0_4 dline_def cell_at_def Bex_def by simp
  have anti: "list_ex (\<lambda>row. list_ex (\<lambda>col. list_all (\<lambda>i. s ! (row + i) ! (col - i) = p) [0..<4])
                [3..<length (s ! 0)]) [0..<length s - 3] \<longleftrightarrow>
      (\<exists>r<length s - 3. \<exists>c<length (s ! 0) - 3. \<forall>q\<in>set (uline (r + 3, c)). cell_at s q = p)"
    (is "?L = ?R")
  proof
    assume ?L
    then obtain r c where rc: "r < length s - 3" "3 \<le> c" "c < length (s ! 0)"
      "s ! r ! c = p" "s ! (r + 1) ! (c - 1) = p" "s ! (r + 2) ! (c - 2) = p"
      "s ! (r + 3) ! (c - 3) = p"
      by (auto simp: list_ex_iff upt_0_4)
    from rc(2) obtain c' where c: "c = c' + 3" using le_Suc_ex add.commute by metis
    have "\<forall>q\<in>set (uline (r + 3, c')). cell_at s q = p"
      using rc(4-7) unfolding c by (simp add: uline_def cell_at_def numeral_3_eq_3)
    moreover from rc(3) c have "c' < length (s ! 0) - 3" by simp
    ultimately show ?R using rc(1) by blast
  next
    assume ?R
    then obtain r c where rc: "r < length s - 3" "c < length (s ! 0) - 3"
      "\<forall>q\<in>set (uline (r + 3, c)). cell_at s q = p" by blast
    from rc(3) have "list_all (\<lambda>i. s ! (r + i) ! (c + 3 - i) = p) [0..<4]"
      by (simp add: uline_def cell_at_def upt_0_4 numeral_3_eq_3)
    moreover from rc(2) have "c + 3 \<in> set [3..<length (s ! 0)]" by simp
    moreover from rc(1) have "r \<in> set [0..<length s - 3]" by simp
    ultimately show ?L unfolding list_ex_iff by blast
  qed
  show ?thesis
    unfolding is_winner_def rows cols diag anti scan_order_ex by blast
qed

lemma winning_lineI:
  assumes "length l = 4" "\<forall>q\<in>set l. cell_at s q = p" "p \<noteq> Empty"
  shows "winning_line s l"
proof (cases l)
  case Nil
  with assms(1) show ?thesis by simp
next
  case (Cons x xs)
  with assms(2,3) show ?thesis by (simp add: winning_line_def list_all_iff)
qed

lemma is_a_winner_find:
  "is_a_winner s =
     map_option (\<lambda>l. (cell_at s (hd l), l))
       (find (winning_line s) (scan_order (length s) (length (s ! 0))))"
  by (simp only: is_a_winner_scan first_some_report)

lemma is_a_winner_Some_is_winner:
  assumes "rect s" "is_a_winner s = Some (m, l)"
  shows "is_winner s m \<and> m \<noteq> Empty"
proof -
  let ?scan = "scan_order (length s) (length (s ! 0))"
  from assms(2) have f: "find (winning_line s) ?scan = Some l" and m: "m = cell_at s (hd l)"
    unfolding is_a_winner_find by auto
  from f have mem: "l \<in> set ?scan" and w: "winning_line s l"
    unfolding find_Some_iff by auto
  from winning_line_cells [OF w] m have "\<forall>q\<in>set l. cell_at s q = m" by simp
  with mem have "is_winner s m" unfolding is_winner_lines [OF assms(1)] by blast
  with winning_line_mark [OF w] m show ?thesis by simp
qed

lemma is_winner_is_a_winner:
  assumes "rect s" "is_winner s p" "p \<noteq> Empty"
  shows "is_a_winner s \<noteq> None"
proof -
  let ?scan = "scan_order (length s) (length (s ! 0))"
  from assms(2) obtain l where l: "l \<in> set ?scan" "\<forall>q\<in>set l. cell_at s q = p"
    unfolding is_winner_lines [OF assms(1)] by blast
  from scan_order_member [OF l(1)] have "length l = 4" by simp
  from winning_lineI [OF this l(2) assms(3)] l(1)
  have "find (winning_line s) ?scan \<noteq> None" unfolding find_None_iff by blast
  then show ?thesis unfolding is_a_winner_find by simp
qed

text \<open>
  Claim C9. On a rectangular board the two win detectors agree: is_a_winner returns a
  result exactly when is_winner holds for one of the two marks, and the mark it returns
  is one for which is_winner holds.
\<close>

theorem winner_detectors_agree:
  assumes "rect s"
  shows "(is_a_winner s \<noteq> None \<longleftrightarrow> is_winner s MarkA \<or> is_winner s MarkB) \<and>
         (\<forall>m l. is_a_winner s = Some (m, l) \<longrightarrow> is_winner s m)"
proof (intro conjI iffI allI impI)
  assume "is_a_winner s \<noteq> None"
  then obtain m l where ml: "is_a_winner s = Some (m, l)" by (cases "is_a_winner s") auto
  from is_a_winner_Some_is_winner [OF assms ml] show "is_winner s MarkA \<or> is_winner s MarkB"
    by (cases m) auto
next
  assume "is_winner s MarkA \<or> is_winner s MarkB"
  then show "is_a_winner s \<noteq> None"
    using is_winner_is_a_winner [OF assms] by blast
next
  fix m l assume "is_a_winner s = Some (m, l)"
  from is_a_winner_Some_is_winner [OF assms this] show "is_winner s m" by simp
qed

theorem winner_detectors_agree_witness:
  "rect two_lines_board \<and>
   is_a_winner two_lines_board = Some (MarkA, [(4, 1), (4, 2), (4, 3), (4, 4)]) \<and>
   is_winner two_lines_board MarkA \<and>
   (is_a_winner two_lines_board \<noteq> None \<longleftrightarrow>
      is_winner two_lines_board MarkA \<or> is_winner two_lines_board MarkB)"
proof -
  have h1: "rect two_lines_board" by code_simp
  have h2: "is_a_winner two_lines_board = Some (MarkA, [(4, 1), (4, 2), (4, 3), (4, 4)])"
    by code_simp
  note t = winner_detectors_agree [OF h1]
  from t h2 have h3: "is_winner two_lines_board MarkA" by blast
  from t have h4: "is_a_winner two_lines_board \<noteq> None \<longleftrightarrow>
      is_winner two_lines_board MarkA \<or> is_winner two_lines_board MarkB" by blast
  from h1 h2 h3 h4 show ?thesis by (intro conjI)
qed

section \<open>The search\<close>

lemma make_move_cases:
  assumes "rect s" "c < length (s ! 0)"
  shows "(make_move s c p = Inr s \<and> (\<forall>r<length s. s ! r ! c \<noteq> Empty)) \<or>
         (\<exists>r<length s. s ! r ! c = Empty \<and> (\<forall>r'. r < r' \<and> r' < length s \<longrightarrow> s ! r' ! c \<noteq> Empty) \<and>
            make_move s c p = Inr (s[r := (s ! r)[c := p]]))"
proof (cases "\<forall>r<length s. s ! r ! c \<noteq> Empty")
  case True
  have "\<forall>r<length s. c < length (s ! r) \<and> s ! r ! c \<noteq> Empty"
    using rect_row_length [OF assms(1)] assms(2) True by simp
  then have "make_move s c p = Inr s"
    unfolding make_move_def using make_move_loop_full [OF le_refl] by blast
  with True show ?thesis by blast
next
  case False
  then obtain r0 where r0: "r0 < length s" "s ! r0 ! c = Empty" by blast
  have cols: "\<forall>r<length s. c < length (s ! r)"
    using rect_row_length [OF assms(1)] assms(2) by simp
  from lowest_empty_exists [OF r0] obtain r where
    r: "r < length s" "s ! r ! c = Empty" "\<forall>r'. r < r' \<and> r' < length s \<longrightarrow> s ! r' ! c \<noteq> Empty"
    by blast
  have "make_move s c p = Inr (s[r := (s ! r)[c := p]])"
    unfolding make_move_def using make_move_loop_lowest [OF le_refl cols r] .
  with r show ?thesis by blast
qed

lemma update_row_length:
  "i < length s \<Longrightarrow> length (s[r := (s ! r)[c := p]] ! i) = length (s ! i)"
  by (cases "i = r") simp_all

lemma update_cell:
  "i < length s \<Longrightarrow> j < length (s ! i) \<Longrightarrow>
   s[r := (s ! r)[c := p]] ! i ! j = (if i = r \<and> j = c then p else s ! i ! j)"
  by (cases "i = r"; cases "j = c") simp_all

lemma rect_update:
  assumes "rect s" "r < length s"
  shows "rect (s[r := (s ! r)[c := p]])"
proof -
  let ?s' = "s[r := (s ! r)[c := p]]"
  have len: "\<And>i. i < length s \<Longrightarrow> length (?s' ! i) = length (s ! i)"
    by (rule update_row_length)
  from assms(1) have ne: "0 < length s" by (simp add: rect_def)
  have "\<forall>i<length ?s'. length (?s' ! i) = length (?s' ! 0)"
  proof (intro allI impI)
    fix i assume "i < length ?s'"
    then have i: "i < length s" by simp
    from len [OF i] len [OF ne] rect_row_length [OF assms(1) i]
    show "length (?s' ! i) = length (?s' ! 0)" by simp
  qed
  moreover from ne have "?s' \<noteq> []" by auto
  ultimately show ?thesis unfolding rect_def list_all_length by blast
qed

lemma gravity_iff:
  "gravity s \<longleftrightarrow>
   (\<forall>r c. Suc r < length s \<and> c < length (s ! 0) \<and> s ! r ! c \<noteq> Empty \<longrightarrow> s ! Suc r ! c \<noteq> Empty)"
proof
  assume "gravity s"
  then show "\<forall>r c. Suc r < length s \<and> c < length (s ! 0) \<and> s ! r ! c \<noteq> Empty \<longrightarrow>
      s ! Suc r ! c \<noteq> Empty"
    using gravity_adjacent by blast
next
  assume a: "\<forall>r c. Suc r < length s \<and> c < length (s ! 0) \<and> s ! r ! c \<noteq> Empty \<longrightarrow>
      s ! Suc r ! c \<noteq> Empty"
  show "gravity s"
    unfolding gravity_def list_all_iff
  proof (intro ballI)
    fix r c assume "r \<in> set [0..<length s - 1]" "c \<in> set [0..<length (s ! 0)]"
    then have "Suc r < length s" "c < length (s ! 0)" by auto
    with a show "s ! r ! c = Empty \<or> s ! Suc r ! c \<noteq> Empty" by blast
  qed
qed

lemma gravity_update:
  assumes "rect s" "gravity s" "r < length s" "c < length (s ! 0)"
    "\<forall>r'. r < r' \<and> r' < length s \<longrightarrow> s ! r' ! c \<noteq> Empty" "p \<noteq> Empty"
  shows "gravity (s[r := (s ! r)[c := p]])"
proof -
  let ?s' = "s[r := (s ! r)[c := p]]"
  from assms(1) have ne: "0 < length s" by (simp add: rect_def)
  have len0: "length (?s' ! 0) = length (s ! 0)"
    using ne by (rule update_row_length)
  have cell: "\<And>i j. i < length s \<Longrightarrow> j < length (s ! 0) \<Longrightarrow>
      ?s' ! i ! j = (if i = r \<and> j = c then p else s ! i ! j)"
    using rect_row_length [OF assms(1)] update_cell [of _ s] by metis
  show ?thesis
    unfolding gravity_iff
  proof (intro allI impI)
    fix i j
    assume a: "Suc i < length ?s' \<and> j < length (?s' ! 0) \<and> ?s' ! i ! j \<noteq> Empty"
    then have i: "Suc i < length s" "i < length s" and j: "j < length (s ! 0)"
      using len0 by simp_all
    from a have occ: "?s' ! i ! j \<noteq> Empty" by simp
    show "?s' ! Suc i ! j \<noteq> Empty"
    proof (cases "Suc i = r \<and> j = c")
      case True
      with cell [OF i(1) j] assms(6) show ?thesis by simp
    next
      case False
      with cell [OF i(1) j] have e: "?s' ! Suc i ! j = s ! Suc i ! j" by simp
      show ?thesis
      proof (cases "i = r \<and> j = c")
        case True
        with assms(5) i(1) have "s ! Suc i ! j \<noteq> Empty" by simp
        with e show ?thesis by simp
      next
        case False
        with cell [OF i(2) j] occ have "s ! i ! j \<noteq> Empty" by simp
        with assms(2) i(1) j have "s ! Suc i ! j \<noteq> Empty" unfolding gravity_iff by blast
        with e show ?thesis by simp
      qed
    qed
  qed
qed

lemma make_move_rect:
  assumes "rect s" "c < length (s ! 0)" "make_move s c p = Inr s'"
  shows "rect s' \<and> length (s' ! 0) = length (s ! 0)"
proof -
  from assms(1) have ne: "0 < length s" by (simp add: rect_def)
  from make_move_cases [OF assms(1,2), of p] assms(3)
  consider "s' = s" | r where "r < length s" "s' = s[r := (s ! r)[c := p]]" by auto
  then show ?thesis
  proof cases
    case 1
    with assms(1) show ?thesis by simp
  next
    case 2
    with rect_update [OF assms(1) 2(1)] update_row_length [OF ne] show ?thesis by simp
  qed
qed

lemma make_move_wf:
  assumes "wf_board s" "c < length (s ! 0)" "make_move s c p = Inr s'" "p \<noteq> Empty"
  shows "wf_board s'"
proof -
  from assms(1) have r: "rect s" and g: "gravity s" by (simp_all add: wf_board_def)
  from make_move_cases [OF r assms(2), of p] assms(3)
  consider "s' = s"
    | r0 where "r0 < length s" "\<forall>r'. r0 < r' \<and> r' < length s \<longrightarrow> s ! r' ! c \<noteq> Empty"
        "s' = s[r0 := (s ! r0)[c := p]]" by auto
  then show ?thesis
  proof cases
    case 1
    with assms(1) show ?thesis by simp
  next
    case 2
    from rect_update [OF r 2(1)] gravity_update [OF r g 2(1) assms(2) 2(2) assms(4)] 2(3)
    show ?thesis by (simp add: wf_board_def)
  qed
qed

lemma possible_moves_legal:
  "c \<in> set (get_possible_moves s) \<longleftrightarrow> c < length (s ! 0) \<and> s ! 0 ! c = Empty"
  by (auto simp: get_possible_moves_def)

lemma not_terminal_has_move:
  assumes "wf_board s" "\<not> is_terminal s"
  shows "get_possible_moves s \<noteq> []"
proof -
  from assms(1) have r: "rect s" and g: "gravity s" by (simp_all add: wf_board_def)
  from assms(2) have "\<not> list_all (\<lambda>row. list_all (\<lambda>cell. cell \<noteq> Empty) row) s"
    by (simp add: is_terminal_def split: if_splits)
  then obtain i j where ij: "i < length s" "j < length (s ! i)" "s ! i ! j = Empty"
    unfolding list_all_length by auto
  from rect_row_length [OF r ij(1)] ij(2) have j: "j < length (s ! 0)" by simp
  have "s ! 0 ! j = Empty"
  proof (rule ccontr)
    assume "s ! 0 ! j \<noteq> Empty"
    from gravity_top_full [OF g j this ij(1)] ij(3) show False by simp
  qed
  with j have "j \<in> set (get_possible_moves s)" by (simp add: possible_moves_legal)
  then show ?thesis by auto
qed

lemma max_loop_fold:
  assumes "\<forall>c\<in>set ms. \<exists>child. make_move s c MarkB = Inr child \<and> minimax child d False = Inr (f c)"
  shows "minimax_max_loop s d ms acc = Inr (fold max (map f ms) acc)"
  using assms by (induction ms arbitrary: acc) (auto simp: max.commute min.commute)

lemma min_loop_fold:
  assumes "\<forall>c\<in>set ms. \<exists>child. make_move s c MarkA = Inr child \<and> minimax child d True = Inr (f c)"
  shows "minimax_min_loop s d ms acc = Inr (fold min (map f ms) acc)"
  using assms by (induction ms arbitrary: acc) (auto simp: max.commute min.commute)

lemma NegInf_least: "NegInf \<le> (v :: score)"
  by simp

lemma PosInf_greatest: "(v :: score) \<le> PosInf"
  by (cases v) simp_all

lemma fold_max_NegInf: "vs \<noteq> [] \<Longrightarrow> fold max vs NegInf = Max (set vs)"
proof (cases vs)
  case Nil
  assume "vs \<noteq> []"
  with Nil show ?thesis by simp
next
  case (Cons v vs')
  have "max v NegInf = v" using NegInf_least [of v] by (rule max.absorb1)
  with Cons Max.set_eq_fold [of v vs'] show ?thesis by simp
qed

lemma fold_min_PosInf: "vs \<noteq> [] \<Longrightarrow> fold min vs PosInf = Min (set vs)"
proof (cases vs)
  case Nil
  assume "vs \<noteq> []"
  with Nil show ?thesis by simp
next
  case (Cons v vs')
  have "min v PosInf = v" using PosInf_greatest [of v] by (rule min.absorb1)
  with Cons Min.set_eq_fold [of v vs'] show ?thesis by simp
qed

lemma children_total:
  assumes "rect s"
    and ih: "\<And>s' mx. rect s' \<Longrightarrow> \<exists>v. minimax s' d mx = Inr v"
  shows "\<exists>f. \<forall>c\<in>set (get_possible_moves s).
           \<exists>child. make_move s c p = Inr child \<and> minimax child d b = Inr (f c)"
proof -
  have "\<forall>c\<in>set (get_possible_moves s).
          \<exists>v. \<exists>child. make_move s c p = Inr child \<and> minimax child d b = Inr v"
  proof
    fix c assume "c \<in> set (get_possible_moves s)"
    then have c: "c < length (s ! 0)" by (simp add: possible_moves_legal)
    from make_move_returns [OF assms(1) c] obtain child where
      ch: "make_move s c p = Inr child" by blast
    from make_move_rect [OF assms(1) c ch] have "rect child" by simp
    from ih [OF this] obtain v where "minimax child d b = Inr v" by blast
    with ch show "\<exists>v. \<exists>child. make_move s c p = Inr child \<and> minimax child d b = Inr v"
      by blast
  qed
  then show ?thesis by (rule bchoice)
qed

lemma minimax_total: "rect s \<Longrightarrow> \<exists>v. minimax s d mx = Inr v"
proof (induction d arbitrary: s mx)
  case 0
  then show ?case by simp
next
  case (Suc d)
  show ?case
  proof (cases "is_terminal s")
    case True
    then show ?thesis by simp
  next
    case False
    show ?thesis
    proof (cases mx)
      case True
      from children_total [OF Suc.prems Suc.IH, where p = MarkB and b = False] obtain f where
        "\<forall>c\<in>set (get_possible_moves s).
           \<exists>child. make_move s c MarkB = Inr child \<and> minimax child d False = Inr (f c)"
        by blast
      from max_loop_fold [OF this] False True show ?thesis by simp
    next
      case mn: False
      from children_total [OF Suc.prems Suc.IH, where p = MarkA and b = True] obtain f where
        "\<forall>c\<in>set (get_possible_moves s).
           \<exists>child. make_move s c MarkA = Inr child \<and> minimax child d True = Inr (f c)"
        by blast
      from min_loop_fold [OF this] False mn show ?thesis by simp
    qed
  qed
qed

lemma list_all2_map_same:
  "list_all2 P xs (map f xs) \<longleftrightarrow> (\<forall>x\<in>set xs. P x (f x))"
  by (simp add: list_all2_map2 list_all2_same)

text \<open>
  Claim C7. On a rectangular board minimax returns evaluate(state) when the depth is 0 or
  the state is terminal. Otherwise every legal column is tried: each child (the
  computer's mark applied when maximizing, the human's when minimizing) has a value at
  depth - 1 with the flag flipped, and minimax returns the maximum, respectively the
  minimum, of these values (the starting value of the loop, minus or plus infinity, when
  there is no legal column, which cannot be on a board that respects gravity).
\<close>

theorem minimax_max_min_of_children:
  assumes "rect s"
  shows "(d = 0 \<or> is_terminal s \<longrightarrow> minimax s d mx = Inr (Fin (evaluate s))) \<and>
    (d \<noteq> 0 \<and> \<not> is_terminal s \<longrightarrow>
       (\<exists>vs. list_all2
                (\<lambda>c v. \<exists>child. make_move s c (if mx then MarkB else MarkA) = Inr child \<and>
                           minimax child (d - 1) (\<not> mx) = Inr v)
                (get_possible_moves s) vs \<and>
             minimax s d mx =
               Inr (if vs = [] then (if mx then NegInf else PosInf)
                    else if mx then Max (set vs) else Min (set vs)))) \<and>
    (gravity s \<and> \<not> is_terminal s \<longrightarrow> get_possible_moves s \<noteq> [])"
proof (intro conjI impI)
  assume "d = 0 \<or> is_terminal s"
  then show "minimax s d mx = Inr (Fin (evaluate s))" by (cases d) auto
next
  assume a: "d \<noteq> 0 \<and> \<not> is_terminal s"
  then obtain d' where d: "d = Suc d'" by (cases d) auto
  from a have nt: "\<not> is_terminal s" by simp
  let ?p = "if mx then MarkB else MarkA"
  let ?ms = "get_possible_moves s"
  from children_total [OF assms minimax_total, where d = d' and p = ?p and b = "\<not> mx"] obtain f where
    f: "\<forall>c\<in>set ?ms. \<exists>child. make_move s c ?p = Inr child \<and> minimax child d' (\<not> mx) = Inr (f c)"
    by blast
  let ?vs = "map f ?ms"
  have l: "list_all2 (\<lambda>c v. \<exists>child. make_move s c ?p = Inr child \<and>
      minimax child (d - 1) (\<not> mx) = Inr v) ?ms ?vs"
    unfolding list_all2_map_same using f d by simp
  have "minimax s d mx =
      Inr (if ?vs = [] then (if mx then NegInf else PosInf)
           else if mx then Max (set ?vs) else Min (set ?vs))"
  proof (cases mx)
    case True
    with f have "minimax_max_loop s d' ?ms NegInf = Inr (fold max ?vs NegInf)"
      by (intro max_loop_fold) simp
    with True nt d show ?thesis by (cases "?vs = []") (simp_all add: fold_max_NegInf)
  next
    case False
    with f have "minimax_min_loop s d' ?ms PosInf = Inr (fold min ?vs PosInf)"
      by (intro min_loop_fold) simp
    with False nt d show ?thesis by (cases "?vs = []") (simp_all add: fold_min_PosInf)
  qed
  with l show "\<exists>vs. list_all2 (\<lambda>c v. \<exists>child. make_move s c ?p = Inr child \<and>
                           minimax child (d - 1) (\<not> mx) = Inr v) ?ms vs \<and>
             minimax s d mx =
               Inr (if vs = [] then (if mx then NegInf else PosInf)
                    else if mx then Max (set vs) else Min (set vs))"
    by blast
next
  assume "gravity s \<and> \<not> is_terminal s"
  with assms show "get_possible_moves s \<noteq> []"
    using not_terminal_has_move [of s] by (simp add: wf_board_def)
qed

theorem minimax_max_min_of_children_witness:
  "rect full_col_board \<and> gravity full_col_board \<and> \<not> is_terminal full_col_board \<and>
   minimax full_col_board 0 True = Inr (Fin (evaluate full_col_board)) \<and>
   minimax full_col_board 1 True = Inr (Fin 2) \<and>
   get_possible_moves full_col_board \<noteq> [] \<and>
   (\<exists>vs. list_all2
            (\<lambda>c v. \<exists>child. make_move full_col_board c (if True then MarkB else MarkA) = Inr child \<and>
                       minimax child (1 - 1) (\<not> True) = Inr v)
            (get_possible_moves full_col_board) vs \<and>
         minimax full_col_board 1 True =
           Inr (if vs = [] then (if True then NegInf else PosInf)
                else if True then Max (set vs) else Min (set vs)))"
proof -
  have h1: "rect full_col_board" by code_simp
  have h2: "gravity full_col_board" by code_simp
  have h3: "\<not> is_terminal full_col_board" by code_simp
  have h4: "minimax full_col_board 1 True = Inr (Fin 2)" by code_simp
  note a = minimax_max_min_of_children [OF h1, of 0 True]
  note b = minimax_max_min_of_children [OF h1, of 1 True]
  from a have c1: "minimax full_col_board 0 True = Inr (Fin (evaluate full_col_board))"
    by blast
  from b h2 h3 have c2: "get_possible_moves full_col_board \<noteq> []" by blast
  from b h3 have c3: "\<exists>vs. list_all2
            (\<lambda>c v. \<exists>child. make_move full_col_board c (if True then MarkB else MarkA) = Inr child \<and>
                       minimax child (1 - 1) (\<not> True) = Inr v)
            (get_possible_moves full_col_board) vs \<and>
         minimax full_col_board 1 True =
           Inr (if vs = [] then (if True then NegInf else PosInf)
                else if True then Max (set vs) else Min (set vs))"
    by simp
  from h1 h2 h3 c1 h4 c2 c3 show ?thesis by (intro conjI)
qed

lemma children_finite:
  assumes "wf_board s" "p \<noteq> Empty"
    and ih: "\<And>s' mx. wf_board s' \<Longrightarrow> \<exists>x. minimax s' d mx = Inr (Fin x)"
  shows "\<exists>f. \<forall>c\<in>set (get_possible_moves s).
           \<exists>child. make_move s c p = Inr child \<and> minimax child d b = Inr (Fin (f c))"
proof -
  from assms(1) have r: "rect s" by (simp add: wf_board_def)
  have "\<forall>c\<in>set (get_possible_moves s).
          \<exists>x. \<exists>child. make_move s c p = Inr child \<and> minimax child d b = Inr (Fin x)"
  proof
    fix c assume "c \<in> set (get_possible_moves s)"
    then have c: "c < length (s ! 0)" by (simp add: possible_moves_legal)
    from make_move_returns [OF r c] obtain child where
      ch: "make_move s c p = Inr child" by blast
    from make_move_wf [OF assms(1) c ch assms(2)] have "wf_board child" .
    from ih [OF this] obtain x where "minimax child d b = Inr (Fin x)" by blast
    with ch show "\<exists>x. \<exists>child. make_move s c p = Inr child \<and> minimax child d b = Inr (Fin x)"
      by blast
  qed
  then show ?thesis by (rule bchoice)
qed

lemma Fin_less: "Fin a < Fin b \<longleftrightarrow> a < b"
  by (auto simp: less_score_def)

lemma Max_Fin: "vs \<noteq> [] \<Longrightarrow> \<exists>x. Max (set (map Fin vs)) = Fin x"
proof -
  assume "vs \<noteq> []"
  then have "Max (set (map Fin vs)) \<in> set (map Fin vs)" by (intro Max_in) simp_all
  then show ?thesis by auto
qed

lemma Min_Fin: "vs \<noteq> [] \<Longrightarrow> \<exists>x. Min (set (map Fin vs)) = Fin x"
proof -
  assume "vs \<noteq> []"
  then have "Min (set (map Fin vs)) \<in> set (map Fin vs)" by (intro Min_in) simp_all
  then show ?thesis by auto
qed

lemma minimax_finite: "wf_board s \<Longrightarrow> \<exists>x. minimax s d mx = Inr (Fin x)"
proof (induction d arbitrary: s mx)
  case 0
  then show ?case by simp
next
  case (Suc d)
  show ?case
  proof (cases "is_terminal s")
    case True
    then show ?thesis by simp
  next
    case False
    let ?ms = "get_possible_moves s"
    from not_terminal_has_move [OF Suc.prems False] have ne: "?ms \<noteq> []" .
    show ?thesis
    proof (cases mx)
      case True
      from children_finite [OF Suc.prems _ Suc.IH, where p = MarkB and b = False] obtain f where
        "\<forall>c\<in>set ?ms. \<exists>child. make_move s c MarkB = Inr child \<and>
            minimax child d False = Inr ((Fin \<circ> f) c)"
        by auto
      from max_loop_fold [OF this, of NegInf]
      have "minimax_max_loop s d ?ms NegInf = Inr (Max (set (map Fin (map f ?ms))))"
        using ne by (simp add: fold_max_NegInf)
      with Max_Fin [of "map f ?ms"] ne False True show ?thesis by auto
    next
      case mn: False
      from children_finite [OF Suc.prems _ Suc.IH, where p = MarkA and b = True] obtain f where
        "\<forall>c\<in>set ?ms. \<exists>child. make_move s c MarkA = Inr child \<and>
            minimax child d True = Inr ((Fin \<circ> f) c)"
        by auto
      from min_loop_fold [OF this, of PosInf]
      have "minimax_min_loop s d ?ms PosInf = Inr (Min (set (map Fin (map f ?ms))))"
        using ne by (simp add: fold_min_PosInf)
      with Min_Fin [of "map f ?ms"] ne False mn show ?thesis by auto
    qed
  qed
qed

lemma find_best_move_loop_spec:
  assumes "\<forall>c\<in>set ms. \<exists>child. make_move s c MarkB = Inr child \<and> minimax child d False = Inr (f c)"
  shows "(find_best_move_loop d s ms bs bm = Inr bm \<and> (\<forall>c\<in>set ms. f c \<le> bs)) \<or>
         (\<exists>pre c post. ms = pre @ c # post \<and> find_best_move_loop d s ms bs bm = Inr (Some c) \<and>
            bs < f c \<and> (\<forall>x\<in>set pre. f x < f c) \<and> (\<forall>x\<in>set post. f x \<le> f c))"
  using assms
proof (induction ms arbitrary: bs bm)
  case Nil
  then show ?case by simp
next
  case (Cons m ms)
  from Cons.prems obtain child where
    ch: "make_move s m MarkB = Inr child" "minimax child d False = Inr (f m)" by auto
  from Cons.prems have rest:
    "\<forall>c\<in>set ms. \<exists>child. make_move s c MarkB = Inr child \<and> minimax child d False = Inr (f c)"
    by simp
  show ?case
  proof (cases "bs < f m")
    case True
    with ch have step: "find_best_move_loop d s (m # ms) bs bm =
        find_best_move_loop d s ms (f m) (Some m)" by simp
    from Cons.IH [OF rest, of "f m" "Some m"] show ?thesis
    proof (elim disjE exE conjE)
      assume a: "find_best_move_loop d s ms (f m) (Some m) = Inr (Some m)"
        "\<forall>c\<in>set ms. f c \<le> f m"
      have "m # ms = [] @ m # ms" by simp
      with a step True show ?thesis by (metis empty_iff list.set(1))
    next
      fix pre c post
      assume a: "ms = pre @ c # post"
        "find_best_move_loop d s ms (f m) (Some m) = Inr (Some c)" "f m < f c"
        "\<forall>x\<in>set pre. f x < f c" "\<forall>x\<in>set post. f x \<le> f c"
      from a(1) have "m # ms = (m # pre) @ c # post" by simp
      moreover from a(3,4) have "\<forall>x\<in>set (m # pre). f x < f c" by simp
      moreover from True a(3) have "bs < f c" by simp
      ultimately show ?thesis using a(2,5) step by metis
    qed
  next
    case False
    with ch have step: "find_best_move_loop d s (m # ms) bs bm =
        find_best_move_loop d s ms bs bm" by simp
    from False have le: "f m \<le> bs" by simp
    from Cons.IH [OF rest, of bs bm] show ?thesis
    proof (elim disjE exE conjE)
      assume a: "find_best_move_loop d s ms bs bm = Inr bm" "\<forall>c\<in>set ms. f c \<le> bs"
      with le step show ?thesis by simp
    next
      fix pre c post
      assume a: "ms = pre @ c # post"
        "find_best_move_loop d s ms bs bm = Inr (Some c)" "bs < f c"
        "\<forall>x\<in>set pre. f x < f c" "\<forall>x\<in>set post. f x \<le> f c"
      from a(1) have "m # ms = (m # pre) @ c # post" by simp
      moreover from a(3,4) le have "\<forall>x\<in>set (m # pre). f x < f c" by auto
      ultimately show ?thesis using a(2,3,5) step by metis
    qed
  qed
qed

lemma possible_moves_sorted: "sorted_wrt (<) (get_possible_moves s)"
  unfolding get_possible_moves_def by (intro sorted_wrt_filter) simp

text \<open>
  Claim C5. On a well-formed board with at least one legal column find_best_move
  returns, at every depth, a column whose top cell is empty; the value of the child of
  that column is the greatest among the children of the legal columns, and every other
  legal column whose child has the same value has a greater index. The result depends
  on the depth and the board only: the function reads nothing else.
\<close>

theorem find_best_move_first_maximum:
  assumes "wf_board s" "get_possible_moves s \<noteq> []"
  shows "\<exists>c child v. find_best_move d s = Inr (Some c) \<and>
           c < length (s ! 0) \<and> s ! 0 ! c = Empty \<and>
           make_move s c MarkB = Inr child \<and> minimax child d False = Inr v \<and>
           (\<forall>c' child' v'. c' < length (s ! 0) \<and> s ! 0 ! c' = Empty \<and>
              make_move s c' MarkB = Inr child' \<and> minimax child' d False = Inr v' \<longrightarrow>
              v' \<le> v \<and> (v' = v \<longrightarrow> c \<le> c'))"
proof -
  let ?ms = "get_possible_moves s"
  from children_finite [OF assms(1) _ minimax_finite, where p = MarkB and b = False and d = d]
  obtain g where
    g: "\<forall>c\<in>set ?ms. \<exists>child. make_move s c MarkB = Inr child \<and>
          minimax child d False = Inr (Fin (g c))"
    by auto
  let ?f = "\<lambda>c. Fin (g c)"
  from assms(2) obtain m where m: "m \<in> set ?ms" by (cases ?ms) auto
  have "\<not> ?f m \<le> NegInf" by simp
  with m have "\<not> (\<forall>c\<in>set ?ms. ?f c \<le> NegInf)" by blast
  with find_best_move_loop_spec [OF g, of NegInf None] obtain pre c post where
    p: "?ms = pre @ c # post" "find_best_move d s = Inr (Some c)"
       "\<forall>x\<in>set pre. ?f x < ?f c" "\<forall>x\<in>set post. ?f x \<le> ?f c"
    unfolding find_best_move_def by blast
  from p(1) have cm: "c \<in> set ?ms" by simp
  with g obtain child where ch: "make_move s c MarkB = Inr child"
    "minimax child d False = Inr (?f c)" by blast
  from possible_moves_sorted [of s] p(1) have after: "\<forall>x\<in>set post. c < x"
    by (simp add: sorted_wrt_append)
  have best: "\<forall>c' child' v'. c' < length (s ! 0) \<and> s ! 0 ! c' = Empty \<and>
              make_move s c' MarkB = Inr child' \<and> minimax child' d False = Inr v' \<longrightarrow>
              v' \<le> ?f c \<and> (v' = ?f c \<longrightarrow> c \<le> c')"
  proof (intro allI impI)
    fix c' child' v'
    assume a: "c' < length (s ! 0) \<and> s ! 0 ! c' = Empty \<and>
              make_move s c' MarkB = Inr child' \<and> minimax child' d False = Inr v'"
    then have c'm: "c' \<in> set ?ms" by (simp add: possible_moves_legal)
    with g a have v': "v' = ?f c'" by auto
    from c'm p(1) consider "c' \<in> set pre" | "c' = c" | "c' \<in> set post" by auto
    then show "v' \<le> ?f c \<and> (v' = ?f c \<longrightarrow> c \<le> c')"
    proof cases
      case 1
      with p(3) have "?f c' < ?f c" by blast
      with v' show ?thesis by (simp add: Fin_less)
    next
      case 2
      with v' show ?thesis by simp
    next
      case 3
      with p(4) after have "?f c' \<le> ?f c" "c < c'" by blast+
      with v' show ?thesis by simp
    qed
  qed
  from cm have "c < length (s ! 0) \<and> s ! 0 ! c = Empty" by (simp add: possible_moves_legal)
  with p(2) ch best show ?thesis by blast
qed

theorem find_best_move_first_maximum_witness:
  "wf_board (empty_board 4 4) \<and> get_possible_moves (empty_board 4 4) \<noteq> [] \<and>
   find_best_move 1 (empty_board 4 4) = Inr (Some 0) \<and>
   (\<exists>c child v. find_best_move 1 (empty_board 4 4) = Inr (Some c) \<and>
      c < length (empty_board 4 4 ! 0) \<and> empty_board 4 4 ! 0 ! c = Empty \<and>
      make_move (empty_board 4 4) c MarkB = Inr child \<and> minimax child 1 False = Inr v \<and>
      (\<forall>c' child' v'. c' < length (empty_board 4 4 ! 0) \<and> empty_board 4 4 ! 0 ! c' = Empty \<and>
         make_move (empty_board 4 4) c' MarkB = Inr child' \<and>
         minimax child' 1 False = Inr v' \<longrightarrow>
         v' \<le> v \<and> (v' = v \<longrightarrow> c \<le> c')))"
proof -
  have h1: "wf_board (empty_board 4 4)" by code_simp
  have h2: "get_possible_moves (empty_board 4 4) \<noteq> []" by code_simp
  have h3: "find_best_move 1 (empty_board 4 4) = Inr (Some 0)" by code_simp
  from h1 h2 h3 find_best_move_first_maximum [OF h1 h2, of 1] show ?thesis by (intro conjI)
qed

end
